theory Spec2Isabelle
  imports Main
begin

section \<open>Python strings and the regular expressions used by Episode\<close>

text \<open>
  A Python \<open>str\<close> is a sequence of Unicode code points, so a title is a list of code
  points. The CJK characters of the source are written by their code points:
  U+7B2C = 31532, U+8BDD = 35805, U+7279 = 29305, U+522B = 21035, U+7BC7 = 31687,
  and the middle dot U+00B7 = 183.
\<close>

type_synonym ustr = "nat list"

text \<open>
  \<open>\s\<close> of a \<open>str\<close> pattern is \<open>str.isspace\<close>: the whitespace table of CPython.
\<close>

definition isspace :: "nat \<Rightarrow> bool" where
  "isspace c \<longleftrightarrow>
     (9 \<le> c \<and> c \<le> 13) \<or> (28 \<le> c \<and> c \<le> 32) \<or> c = 133 \<or> c = 160 \<or> c = 5760 \<or>
     (8192 \<le> c \<and> c \<le> 8202) \<or> c = 8232 \<or> c = 8233 \<or> c = 8239 \<or> c = 8287 \<or> c = 12288"

text \<open>
  The patterns of the source anchored by \<open>^\<close> are sequences of items, each a character
  class taken once or one-or-more times (greedy). \<open>match_items\<close> is the backtracking
  matcher of \<open>re\<close> at position 0: for a \<open>+\<close> item the longest run is tried first,
  then shorter ones. It returns the text matched by every item and the unmatched rest.
\<close>

datatype item = One "nat \<Rightarrow> bool" | Many1 "nat \<Rightarrow> bool"

fun cuts :: "(nat \<Rightarrow> bool) \<Rightarrow> ustr \<Rightarrow> (ustr \<times> ustr) list" where
  "cuts p [] = []"
| "cuts p (c # cs) =
     (if p c then map (\<lambda>(a, b). (c # a, b)) (cuts p cs) @ [([c], cs)] else [])"

fun first_match :: "'a option list \<Rightarrow> 'a option" where
  "first_match [] = None"
| "first_match (None # xs) = first_match xs"
| "first_match (Some x # xs) = Some x"

fun match_items :: "item list \<Rightarrow> ustr \<Rightarrow> (ustr list \<times> ustr) option" where
  "match_items [] s = Some ([], s)"
| "match_items (One p # its) s =
     (case s of
        [] \<Rightarrow> None
      | c # cs \<Rightarrow>
          if p c then map_option (\<lambda>(ms, r). ([c] # ms, r)) (match_items its cs) else None)"
| "match_items (Many1 p # its) s =
     first_match
       (map (\<lambda>(a, b). map_option (\<lambda>(ms, r). (a # ms, r)) (match_items its b)) (cuts p s))"

section \<open>Episode.__init__: the title\<close>

text \<open>
  \<open>\d\<close> of a \<open>str\<close> pattern is the Unicode category Nd of the interpreter's Unicode
  database, which is no part of the repository: the table is the parameter \<open>dec\<close>.
\<close>

definition forbidden :: "nat \<Rightarrow> bool" where
  "forbidden c \<longleftrightarrow> c \<in> {92, 47, 58, 42, 63, 34, 60, 62, 124}"

text \<open>\<open>re.sub(r'[\\/:*?"<>|]', " ", s)\<close>\<close>

definition sub_forbidden :: "ustr \<Rightarrow> ustr" where
  "sub_forbidden s = map (\<lambda>c. if forbidden c then 32 else c) s"

text \<open>
  \<open>re.sub(r"\s+$", "", s)\<close>: the leftmost match of \<open>\s+$\<close> starts at the beginning of
  the trailing run of whitespace and spans it (a final newline is whitespace too).
\<close>

definition sub_trailing_space :: "ustr \<Rightarrow> ustr" where
  "sub_trailing_space s = rev (dropWhile isspace (rev s))"

text \<open>\<open>re.sub(r"\.", "\<cdot>", s)\<close>, the replacement being U+00B7.\<close>

definition sub_dot :: "ustr \<Rightarrow> ustr" where
  "sub_dot s = map (\<lambda>c. if c = 46 then 183 else c) s"

definition fix_special :: "ustr \<Rightarrow> ustr" where
  "fix_special s = sub_dot (sub_trailing_space (sub_forbidden s))"

definition join_titles :: "ustr \<Rightarrow> ustr \<Rightarrow> ustr" where
  "join_titles short long =
     (if short = long \<or> long = [] then short else short @ [32] @ long)"

text \<open>\<open>^(\d+)\s+\<close>U+7B2C\<open>(\d+)\<close>U+8BDD\<close>

definition re_dup_num :: "(nat \<Rightarrow> bool) \<Rightarrow> item list" where
  "re_dup_num dec =
     [Many1 dec, Many1 isspace, One (\<lambda>c. c = 31532), Many1 dec, One (\<lambda>c. c = 35805)]"

definition fix_dup_num :: "(nat \<Rightarrow> bool) \<Rightarrow> ustr \<Rightarrow> ustr" where
  "fix_dup_num dec t =
     (case match_items (re_dup_num dec) t of
        Some ([d1, w, a, d2, b], r) \<Rightarrow> if d1 = d2 then a @ d2 @ b @ r else t
      | _ \<Rightarrow> t)"

text \<open>\<open>^\<close>U+7279 U+522B U+7BC7\<open>\s+\<close>U+7279 U+522B U+7BC7\<close>

definition re_special :: "item list" where
  "re_special =
     [One (\<lambda>c. c = 29305), One (\<lambda>c. c = 21035), One (\<lambda>c. c = 31687), Many1 isspace,
      One (\<lambda>c. c = 29305), One (\<lambda>c. c = 21035), One (\<lambda>c. c = 31687)]"

definition fix_dup_special :: "ustr \<Rightarrow> ustr" where
  "fix_dup_special t =
     (case match_items re_special t of
        Some (ms, r) \<Rightarrow> [29305, 21035, 31687] @ r
      | None \<Rightarrow> t)"

text \<open>\<open>[0-9\-]\<close>\<close>

definition digit_hyphen :: "nat \<Rightarrow> bool" where
  "digit_hyphen c \<longleftrightarrow> (48 \<le> c \<and> c \<le> 57) \<or> c = 45"

definition fix_number :: "ustr \<Rightarrow> ustr" where
  "fix_number t =
     (if match_items [Many1 digit_hyphen, One (\<lambda>c. c = 35805)] t \<noteq> None then
        (case match_items [Many1 digit_hyphen] t of
           Some ([d], r) \<Rightarrow> [31532] @ d @ r
         | _ \<Rightarrow> t)
      else if match_items [Many1 digit_hyphen] t \<noteq> None then
        (case match_items [Many1 digit_hyphen] t of
           Some ([d], r) \<Rightarrow> [31532] @ d @ [35805] @ r
         | _ \<Rightarrow> t)
      else t)"

text \<open>The value of \<open>self.title\<close> after the constructor.\<close>

definition title_of :: "(nat \<Rightarrow> bool) \<Rightarrow> ustr \<Rightarrow> ustr \<Rightarrow> ustr" where
  "title_of dec short_title long_title =
     fix_number (fix_dup_special (fix_dup_num dec
       (join_titles (fix_special short_title) (fix_special long_title))))"

text \<open>What \<open>match_items\<close> returns for one item: the text it matched.\<close>

fun item_ok :: "item \<Rightarrow> ustr \<Rightarrow> bool" where
  "item_ok (One p) m = (case m of [c] \<Rightarrow> p c | _ \<Rightarrow> False)"
| "item_ok (Many1 p) m = (m \<noteq> [] \<and> list_all p m)"


section \<open>The title rules as the specification words them\<close>

text \<open>
  The seven rules of the specification, each written directly on lists, without the
  matcher: a run of a character class is the longest one (\<open>takeWhile\<close>). Rule 5
  takes the comparison of the two digit groups as the parameter \<open>eq\<close>; the
  specification words it as numeric equality, \<open>numerically_equal\<close>, where \<open>val\<close> is
  the digit value of the Unicode database.
\<close>

fun trim_right :: "ustr \<Rightarrow> ustr" where
  "trim_right [] = []"
| "trim_right (c # cs) = (if trim_right cs = [] \<and> isspace c then [] else c # trim_right cs)"

definition spec_rule1 :: "ustr \<Rightarrow> ustr" where
  "spec_rule1 s = map (\<lambda>c. if c \<in> set [92, 47, 58, 42, 63, 34, 60, 62, 124] then 32 else c) s"

definition spec_rule3 :: "ustr \<Rightarrow> ustr" where
  "spec_rule3 s = concat (map (\<lambda>c. if c = 46 then [183] else [c]) s)"

definition spec_rule4 :: "ustr \<Rightarrow> ustr \<Rightarrow> ustr" where
  "spec_rule4 short long = (if short = long \<or> long = [] then short else short @ 32 # long)"

definition number_of :: "(nat \<Rightarrow> nat) \<Rightarrow> ustr \<Rightarrow> nat" where
  "number_of val ds = foldl (\<lambda>a c. 10 * a + val c) 0 ds"

definition numerically_equal :: "(nat \<Rightarrow> nat) \<Rightarrow> ustr \<Rightarrow> ustr \<Rightarrow> bool" where
  "numerically_equal val d1 d2 \<longleftrightarrow> number_of val d1 = number_of val d2"

definition spec_rule5 :: "(ustr \<Rightarrow> ustr \<Rightarrow> bool) \<Rightarrow> (nat \<Rightarrow> bool) \<Rightarrow> ustr \<Rightarrow> ustr" where
  "spec_rule5 eq dec t =
     (let d1 = takeWhile dec t; r1 = dropWhile dec t;
          w = takeWhile isspace r1; r2 = dropWhile isspace r1;
          d2 = takeWhile dec (tl r2); r3 = dropWhile dec (tl r2)
      in if d1 \<noteq> [] \<and> w \<noteq> [] \<and> r2 \<noteq> [] \<and> hd r2 = 31532 \<and> d2 \<noteq> [] \<and>
            r3 \<noteq> [] \<and> hd r3 = 35805 \<and> eq d1 d2
         then [31532] @ d2 @ [35805] @ tl r3
         else t)"

definition spec_rule6 :: "ustr \<Rightarrow> ustr" where
  "spec_rule6 t =
     (let r = drop 3 t; w = takeWhile isspace r; r2 = dropWhile isspace r
      in if take 3 t = [29305, 21035, 31687] \<and> w \<noteq> [] \<and> take 3 r2 = [29305, 21035, 31687]
         then r2 else t)"

definition spec_rule7 :: "ustr \<Rightarrow> ustr" where
  "spec_rule7 t =
     (let d = takeWhile digit_hyphen t; r = dropWhile digit_hyphen t
      in if d = [] then t
         else if r \<noteq> [] \<and> hd r = 35805 then 31532 # t
         else [31532] @ d @ [35805] @ r)"

definition spec_title ::
    "(ustr \<Rightarrow> ustr \<Rightarrow> bool) \<Rightarrow> (nat \<Rightarrow> bool) \<Rightarrow> ustr \<Rightarrow> ustr \<Rightarrow> ustr" where
  "spec_title eq dec short long =
     spec_rule7 (spec_rule6 (spec_rule5 eq dec
       (spec_rule4 (spec_rule3 (trim_right (spec_rule1 short)))
                   (spec_rule3 (trim_right (spec_rule1 long))))))"

definition ascii_digit :: "nat \<Rightarrow> bool" where
  "ascii_digit c \<longleftrightarrow> 48 \<le> c \<and> c \<le> 57"

definition ascii_digit_value :: "nat \<Rightarrow> nat" where
  "ascii_digit_value c = c - 48"


text \<open>
  A sanitised title: no forbidden character, no full stop, no trailing whitespace.
  \<open>fix_all\<close> is the part of the constructor after the join.
\<close>

definition clean :: "ustr \<Rightarrow> bool" where
  "clean s \<longleftrightarrow> (\<forall>c \<in> set s. \<not> forbidden c \<and> c \<noteq> 46) \<and> (s \<noteq> [] \<longrightarrow> \<not> isspace (last s))"

definition fix_all :: "(nat \<Rightarrow> bool) \<Rightarrow> ustr \<Rightarrow> ustr" where
  "fix_all dec t = fix_number (fix_dup_special (fix_dup_num dec t))"

section \<open>The outside world of an episode run\<close>

text \<open>
  Everything outside the interpreter is explicit state: the files under the save
  directory, a clock in milliseconds, the list object \<open>imgs_path\<close> that
  \<open>download\<close> creates and \<open>clearAfterSave\<close> mutates through its alias, and the
  signals emitted to the GUI. How the network and the disk behave is given by an
  environment that is asked once per interaction; \<open>tick\<close> counts the interactions.
\<close>

type_synonym bytes = "nat list"

datatype exn =
    RequestException | HTTPError | KeyError | OSError | TypeError | AttributeError | IndexError
  | SystemExit

text \<open>\<open>requests.HTTPError\<close> is a subclass of \<open>requests.RequestException\<close>.\<close>

definition is_RequestException :: "exn \<Rightarrow> bool" where
  "is_RequestException e \<longleftrightarrow> e = RequestException \<or> e = HTTPError"

datatype image = Image (mode: string) (pixels: bytes)

datatype content =
    Raw bytes
  | PdfPages "image list"
  | PdfDoc "image list" "ustr list"
  | Jpeg image "ustr list"
  | SevenZip "(ustr \<times> content) list"
  | Truncated

datatype node = File content | Dir "(ustr \<times> content) list"

text \<open>
  A disk operation succeeds, fails leaving the disk as it was, or fails half-way:
  a write leaves a truncated file, a removal returns although the file is still there.
\<close>

datatype fault = NoFault | FailClean | FailDirty

datatype request = GetImageIndex int | ImageToken "ustr list" | GetImage ustr

text \<open>
  A reply: \<open>images\<close> is \<open>res.json()["data"]["images"]\<close>, each entry given by its
  \<open>"path"\<close> (\<open>None\<close> for an entry without that key), and \<open>tokens\<close> is
  \<open>res.json()["data"]\<close> of the token reply, each entry given by its \<open>"url"\<close> and
  \<open>"token"\<close>, which every entry is taken to have; \<open>Inl\<close> is what decoding the JSON
  or the lookup of \<open>"data"\<close> raises.
\<close>

record response =
  status_code :: int
  etag :: "ustr option"
  res_content :: bytes
  images :: "exn + ustr option list"
  tokens :: "exn + (ustr \<times> ustr) list"

datatype message =
    ImageListFailed | TokenFailed | DownloadFailed | SaveImgFailed
  | PdfFailed | FolderFailed | SevenZFailed | ClearFailed

text \<open>
  \<open>RateProgress\<close> is \<open>rate_progress.emit\<close> with the task id, the rate and the path
  (absent in the sentinel), \<open>MessageBox\<close> is \<open>mainGUI.message_box.emit\<close>;
  \<open>Assemble\<close> records the entry into one of the three save methods.
\<close>

datatype event = RateProgress ustr int "ustr option" | MessageBox message | Assemble ustr

record world =
  files :: "(ustr \<times> node) list"
  clock :: int
  tick :: nat
  imgs_path :: "ustr list"
  trace :: "event list"

text \<open>
  The constants of \<open>src.utils\<close> are not among the sources and are parameters, as are
  MD5, the image decoder, and the floating-point rate \<open>int((index / len) * 100)\<close>.
\<close>

record env =
  MAX_RETRY_SMALL :: int
  MAX_RETRY_LARGE :: int
  RETRY_WAIT_EX :: int
  app_name :: ustr
  app_version :: ustr
  app_copyright :: ustr
  md5_hexdigest :: "bytes \<Rightarrow> ustr"
  image_mode :: "bytes \<Rightarrow> string option"
  rate_of :: "nat \<Rightarrow> nat \<Rightarrow> int"
  net_reply :: "nat \<Rightarrow> request \<Rightarrow> response option \<times> nat"
  fs_fault :: "nat \<Rightarrow> fault"

definition emit :: "event \<Rightarrow> world \<Rightarrow> world" where
  "emit ev w = w\<lparr>trace := trace w @ [ev]\<rparr>"

definition put :: "'k \<Rightarrow> 'v \<Rightarrow> ('k \<times> 'v) list \<Rightarrow> ('k \<times> 'v) list" where
  "put k v kvs = filter (\<lambda>x. fst x \<noteq> k) kvs @ [(k, v)]"

definition del :: "'k \<Rightarrow> ('k \<times> 'v) list \<Rightarrow> ('k \<times> 'v) list" where
  "del k kvs = filter (\<lambda>x. fst x \<noteq> k) kvs"

text \<open>
  \<open>os.path.exists\<close>. \<open>files\<close> holds the entries below the save directory under
  the path strings that the program builds for them; a path is looked up as the string
  it is, with no normalisation, and the save directory itself and its parents are no
  entries.
\<close>

definition path_exists :: "world \<Rightarrow> ustr \<Rightarrow> bool" where
  "path_exists w p \<longleftrightarrow> map_of (files w) p \<noteq> None"

text \<open>\<open>posixpath.join\<close> of two components\<close>

definition path_join :: "ustr \<Rightarrow> ustr \<Rightarrow> ustr" where
  "path_join a b =
     (if b \<noteq> [] \<and> hd b = 47 then b
      else if a = [] \<or> last a = 47 then a @ b
      else a @ [47] @ b)"

text \<open>Opening a file for writing and writing it: \<open>open(p, "wb")\<close>, \<open>Image.save\<close>.\<close>

definition write_file :: "env \<Rightarrow> ustr \<Rightarrow> content \<Rightarrow> world \<Rightarrow> (exn + unit) \<times> world" where
  "write_file env p c w =
     (let w1 = w\<lparr>tick := Suc (tick w)\<rparr> in
      case map_of (files w) p of
        Some (Dir es) \<Rightarrow> (Inl OSError, w1)
      | _ \<Rightarrow>
          (case fs_fault env (tick w) of
             NoFault \<Rightarrow> (Inr (), w1\<lparr>files := put p (File c) (files w)\<rparr>)
           | FailClean \<Rightarrow> (Inl OSError, w1)
           | FailDirty \<Rightarrow> (Inl OSError, w1\<lparr>files := put p (File Truncated) (files w)\<rparr>)))"

text \<open>\<open>os.remove\<close>\<close>

definition os_remove :: "env \<Rightarrow> ustr \<Rightarrow> world \<Rightarrow> (exn + unit) \<times> world" where
  "os_remove env p w =
     (let w1 = w\<lparr>tick := Suc (tick w)\<rparr> in
      case map_of (files w) p of
        Some (File c) \<Rightarrow>
          (case fs_fault env (tick w) of
             NoFault \<Rightarrow> (Inr (), w1\<lparr>files := del p (files w)\<rparr>)
           | FailClean \<Rightarrow> (Inl OSError, w1)
           | FailDirty \<Rightarrow> (Inr (), w1))
      | _ \<Rightarrow> (Inl OSError, w1))"

text \<open>\<open>os.makedirs\<close> of a path that does not exist\<close>

definition makedirs :: "env \<Rightarrow> ustr \<Rightarrow> world \<Rightarrow> (exn + unit) \<times> world" where
  "makedirs env p w =
     (let w1 = w\<lparr>tick := Suc (tick w)\<rparr> in
      case map_of (files w) p of
        Some n \<Rightarrow> (Inl OSError, w1)
      | None \<Rightarrow>
          (case fs_fault env (tick w) of
             NoFault \<Rightarrow> (Inr (), w1\<lparr>files := put p (Dir []) (files w)\<rparr>)
           | _ \<Rightarrow> (Inl OSError, w1)))"

text \<open>\<open>shutil.rmtree\<close>\<close>

definition rmtree :: "env \<Rightarrow> ustr \<Rightarrow> world \<Rightarrow> (exn + unit) \<times> world" where
  "rmtree env p w =
     (let w1 = w\<lparr>tick := Suc (tick w)\<rparr> in
      case map_of (files w) p of
        Some (Dir es) \<Rightarrow>
          (case fs_fault env (tick w) of
             NoFault \<Rightarrow> (Inr (), w1\<lparr>files := del p (files w)\<rparr>)
           | _ \<Rightarrow> (Inl OSError, w1))
      | _ \<Rightarrow> (Inl OSError, w1))"

text \<open>Writing one file into a directory: \<open>img.save(os.path.join(folder, name), ...)\<close>.\<close>

definition write_in_dir ::
    "env \<Rightarrow> ustr \<Rightarrow> ustr \<Rightarrow> content \<Rightarrow> world \<Rightarrow> (exn + unit) \<times> world" where
  "write_in_dir env d name c w =
     (let w1 = w\<lparr>tick := Suc (tick w)\<rparr> in
      case map_of (files w) d of
        Some (Dir es) \<Rightarrow>
          (case fs_fault env (tick w) of
             NoFault \<Rightarrow> (Inr (), w1\<lparr>files := put d (Dir (put name c es)) (files w)\<rparr>)
           | FailClean \<Rightarrow> (Inl OSError, w1)
           | FailDirty \<Rightarrow>
               (Inl OSError, w1\<lparr>files := put d (Dir (put name Truncated es)) (files w)\<rparr>))
      | _ \<Rightarrow> (Inl OSError, w1))"

text \<open>One HTTP request: the reply, or none on a transport error, and the time it took.\<close>

definition send :: "env \<Rightarrow> request \<Rightarrow> world \<Rightarrow> response option \<times> world" where
  "send env rq w =
     (case net_reply env (tick w) rq of
        (rep, d) \<Rightarrow> (rep, w\<lparr>tick := Suc (tick w), clock := clock w + int d\<rparr>))"

section \<open>The retry decorator\<close>

text \<open>
  \<open>retrying.retry\<close> with the keyword arguments that the source uses. A stop or wait
  function takes part only if its keyword is given; the wait is the maximum of the
  wait functions, \<open>exponential_sleep\<close> being capped by the library's \<open>MAX_WAIT\<close>.
  On a stop the last exception is raised again (\<open>wrap_exception\<close> is off).
\<close>

record retry_kwargs =
  stop_max_attempt_number :: "nat option"
  stop_max_delay :: "int option"
  wait_exponential_multiplier :: "int option"

definition should_stop :: "retry_kwargs \<Rightarrow> nat \<Rightarrow> int \<Rightarrow> bool" where
  "should_stop kw attempt_number delay \<longleftrightarrow>
     (case stop_max_attempt_number kw of Some n \<Rightarrow> attempt_number \<ge> n | None \<Rightarrow> False) \<or>
     (case stop_max_delay kw of Some d \<Rightarrow> delay \<ge> d | None \<Rightarrow> False)"

definition MAX_WAIT :: int where
  "MAX_WAIT = 1073741823"

definition exponential_sleep :: "int \<Rightarrow> nat \<Rightarrow> int" where
  "exponential_sleep multiplier previous_attempt_number =
     (let result = multiplier * 2 ^ previous_attempt_number;
          result = (if result > MAX_WAIT then MAX_WAIT else result)
      in if result < 0 then 0 else result)"

definition wait_ms :: "retry_kwargs \<Rightarrow> nat \<Rightarrow> int" where
  "wait_ms kw attempt_number =
     (case wait_exponential_multiplier kw of
        None \<Rightarrow> 0
      | Some m \<Rightarrow> max 0 (exponential_sleep m attempt_number))"

partial_function (option) Retrying_loop ::
    "retry_kwargs \<Rightarrow> (world \<Rightarrow> (exn + 'a) \<times> world) \<Rightarrow> int \<Rightarrow> nat \<Rightarrow> world
       \<Rightarrow> ((exn + 'a) \<times> world) option" where
  "Retrying_loop kw fn start_time attempt_number w =
     (case fn w of
        (Inr v, w1) \<Rightarrow> Some (Inr v, w1)
      | (Inl e, w1) \<Rightarrow>
          if should_stop kw attempt_number (clock w1 - start_time) then Some (Inl e, w1)
          else Retrying_loop kw fn start_time (Suc attempt_number)
                 (w1\<lparr>clock := clock w1 + wait_ms kw attempt_number\<rparr>))"

definition Retrying_call ::
    "retry_kwargs \<Rightarrow> (world \<Rightarrow> (exn + 'a) \<times> world) \<Rightarrow> world \<Rightarrow> ((exn + 'a) \<times> world) option" where
  "Retrying_call kw fn w = Retrying_loop kw fn (clock w) 1 w"

text \<open>The decorated functions of the source and the keyword arguments of each.\<close>

datatype call_site =
    SiteImageIndex | SiteImageToken | SitePageGet
  | SiteTempWrite | SiteClear | SitePdf | SiteFolder | SiteSevenZ

definition site_kwargs :: "env \<Rightarrow> call_site \<Rightarrow> retry_kwargs" where
  "site_kwargs env site =
     (case site of
        SiteImageIndex \<Rightarrow>
          \<lparr>stop_max_attempt_number = None, stop_max_delay = Some (MAX_RETRY_SMALL env),
           wait_exponential_multiplier = Some (RETRY_WAIT_EX env)\<rparr>
      | SiteImageToken \<Rightarrow>
          \<lparr>stop_max_attempt_number = None, stop_max_delay = Some (MAX_RETRY_SMALL env),
           wait_exponential_multiplier = Some (RETRY_WAIT_EX env)\<rparr>
      | SitePageGet \<Rightarrow>
          \<lparr>stop_max_attempt_number = None, stop_max_delay = Some (MAX_RETRY_LARGE env),
           wait_exponential_multiplier = Some (RETRY_WAIT_EX env)\<rparr>
      | _ \<Rightarrow>
          \<lparr>stop_max_attempt_number = Some 5, stop_max_delay = None,
           wait_exponential_multiplier = None\<rparr>)"

section \<open>Episode\<close>

record raw_episode =
  raw_id :: int
  is_locked :: bool
  raw_ord :: int
  short_title :: ustr
  long_title :: ustr

record comic_info =
  info_title :: ustr
  author_name :: ustr
  info_save_path :: ustr

text \<open>
  The attributes of an \<open>Episode\<close> that the methods below read. \<open>imgs_token\<close> is
  \<open>None\<close> until \<open>init_imgsList\<close> has stored the token list; \<open>epi_path\<close> is an
  attribute that the constructor assigns only for the three known save methods.
\<close>

record episode =
  ep_id :: int
  available :: bool
  ep_ord :: int
  comic_name :: ustr
  imgs_token :: "(ustr \<times> ustr) list option"
  author :: ustr
  title :: ustr
  save_path :: ustr
  save_method :: ustr
  epi_path_pdf :: ustr
  epi_path_folder :: ustr
  epi_path_7z :: ustr
  epi_path :: "ustr option"

definition METHOD_PDF :: ustr where
  "METHOD_PDF = [80, 68, 70]"

definition METHOD_FOLDER :: ustr where
  "METHOD_FOLDER = [25991, 20214, 22841, 45, 22270, 29255]"

definition METHOD_7Z :: ustr where
  "METHOD_7Z = [55, 122, 21387, 32553, 21253]"

text \<open>
  \<open>Episode.__init__\<close>; \<open>method\<close> is \<open>mainGUI.getConfig("save_method")\<close>. The request
  headers built from \<open>sessData\<close> and \<open>comic_id\<close> are left out: the replies of the
  network are the environment's.
\<close>

definition Episode_init ::
    "(nat \<Rightarrow> bool) \<Rightarrow> raw_episode \<Rightarrow> comic_info \<Rightarrow> ustr \<Rightarrow> episode" where
  "Episode_init dec ep info method =
     (let t = title_of dec (short_title ep) (long_title ep);
          sp = info_save_path info;
          pdf = path_join sp (t @ [46, 112, 100, 102]);
          folder = path_join sp t;
          sevenz = path_join sp (t @ [46, 55, 122])
      in \<lparr>ep_id = raw_id ep, available = \<not> is_locked ep, ep_ord = raw_ord ep,
          comic_name = info_title info, imgs_token = None, author = author_name info,
          title = t, save_path = sp, save_method = method,
          epi_path_pdf = pdf, epi_path_folder = folder, epi_path_7z = sevenz,
          epi_path =
            (if method = METHOD_PDF then Some pdf
             else if method = METHOD_FOLDER then Some folder
             else if method = METHOD_7Z then Some sevenz
             else None)\<rparr>)"

definition isAvailable :: "episode \<Rightarrow> bool" where
  "isAvailable e = available e"

definition isDownloaded :: "world \<Rightarrow> episode \<Rightarrow> bool" where
  "isDownloaded w e \<longleftrightarrow>
     path_exists w (epi_path_pdf e) \<or> path_exists w (epi_path_folder e)
       \<or> path_exists w (epi_path_7z e)"

subsection \<open>init_imgsList\<close>

definition fetch_image_index ::
    "env \<Rightarrow> episode \<Rightarrow> world \<Rightarrow> (exn + ustr option list) \<times> world" where
  "fetch_image_index env e w =
     (case send env (GetImageIndex (ep_id e)) w of
        (None, w1) \<Rightarrow> (Inl RequestException, w1)
      | (Some res, w1) \<Rightarrow>
          if status_code res \<noteq> 200 then (Inl HTTPError, w1) else (images res, w1))"

definition fetch_image_token ::
    "env \<Rightarrow> ustr list \<Rightarrow> world \<Rightarrow> (exn + (ustr \<times> ustr) list) \<times> world" where
  "fetch_image_token env imgs_urls w =
     (case send env (ImageToken imgs_urls) w of
        (None, w1) \<Rightarrow> (Inl RequestException, w1)
      | (Some res, w1) \<Rightarrow>
          if status_code res \<noteq> 200 then (Inl HTTPError, w1) else (tokens res, w1))"

text \<open>
  The result is the returned flag or an exception that no handler of the method
  catches, the episode with its token list, and the world; \<open>None\<close> when a retry loop
  does not end.
\<close>

definition init_imgsList ::
    "env \<Rightarrow> episode \<Rightarrow> world \<Rightarrow> ((exn + bool) \<times> episode \<times> world) option" where
  "init_imgsList env e w =
     (case Retrying_call (site_kwargs env SiteImageIndex) (fetch_image_index env e) w of
        None \<Rightarrow> None
      | Some (Inl ex, w1) \<Rightarrow>
          if is_RequestException ex
          then Some (Inr False, e, emit (MessageBox ImageListFailed) w1)
          else Some (Inl ex, e, w1)
      | Some (Inr imgs, w1) \<Rightarrow>
          (case those imgs of
             None \<Rightarrow> Some (Inl KeyError, e, w1)
           | Some imgs_urls \<Rightarrow>
               (case Retrying_call (site_kwargs env SiteImageToken)
                       (fetch_image_token env imgs_urls) w1 of
                  None \<Rightarrow> None
                | Some (Inl ex, w2) \<Rightarrow>
                    if is_RequestException ex
                    then Some (Inr False, e, emit (MessageBox TokenFailed) w2)
                    else Some (Inl ex, e, w2)
                | Some (Inr toks, w2) \<Rightarrow>
                    Some (Inr True, e\<lparr>imgs_token := Some toks\<rparr>, w2))))"

subsection \<open>downloadImg\<close>

text \<open>\<open>str\<close> of an integer\<close>

fun str_nat :: "nat \<Rightarrow> ustr" where
  "str_nat n = (if n < 10 then [48 + n] else str_nat (n div 10) @ [48 + n mod 10])"

definition str_int :: "int \<Rightarrow> ustr" where
  "str_int i = (if i < 0 then 45 # str_nat (nat (- i)) else str_nat (nat i))"

text \<open>\<open>os.path.join(self.save_path, f"{self.ord}_{index}.jpg")\<close>\<close>

definition temp_path :: "episode \<Rightarrow> nat \<Rightarrow> ustr" where
  "temp_path e index =
     path_join (save_path e) (str_int (ep_ord e) @ [95] @ str_nat index @ [46, 106, 112, 103])"

text \<open>One attempt of the inner function that fetches the image.\<close>

definition fetch_img :: "env \<Rightarrow> ustr \<Rightarrow> world \<Rightarrow> (exn + bytes) \<times> world" where
  "fetch_img env img_url w =
     (case send env (GetImage img_url) w of
        (None, w1) \<Rightarrow> (Inl RequestException, w1)
      | (Some res, w1) \<Rightarrow>
          if status_code res \<noteq> 200 then (Inl HTTPError, w1)
          else (case etag res of
                  None \<Rightarrow> (Inl KeyError, w1)
                | Some t \<Rightarrow>
                    if t \<noteq> md5_hexdigest env (res_content res) then (Inl HTTPError, w1)
                    else (Inr (res_content res), w1)))"

text \<open>The result is the returned path, \<open>None\<close> of Python after a reported failure.\<close>

definition downloadImg ::
    "env \<Rightarrow> episode \<Rightarrow> nat \<Rightarrow> ustr \<Rightarrow> world \<Rightarrow> ((exn + ustr option) \<times> world) option" where
  "downloadImg env e index img_url w =
     (case Retrying_call (site_kwargs env SitePageGet) (fetch_img env img_url) w of
        None \<Rightarrow> None
      | Some (Inl ex, w1) \<Rightarrow>
          if is_RequestException ex
          then Some (Inr None, emit (MessageBox DownloadFailed) w1)
          else Some (Inl ex, w1)
      | Some (Inr img, w1) \<Rightarrow>
          (case Retrying_call (site_kwargs env SiteTempWrite)
                  (write_file env (temp_path e index) (Raw img)) w1 of
             None \<Rightarrow> None
           | Some (Inl ex, w2) \<Rightarrow>
               if ex = OSError
               then Some (Inr None, emit (MessageBox SaveImgFailed) w2)
               else Some (Inl ex, w2)
           | Some (Inr u, w2) \<Rightarrow> Some (Inr (Some (temp_path e index)), w2)))"

subsection \<open>clearAfterSave\<close>

text \<open>
  The loop over \<open>reversed(imgs_path)\<close>: the iterator holds an index that goes down
  from the last position and stops when it is out of range; \<open>imgs_path.remove(img)\<close>
  removes the first element equal to \<open>img\<close>. The first argument is the index plus one.
\<close>

fun clear_loop :: "env \<Rightarrow> nat \<Rightarrow> world \<Rightarrow> (exn + unit) \<times> world" where
  "clear_loop env 0 w = (Inr (), w)"
| "clear_loop env (Suc i) w =
     (if i < length (imgs_path w) then
        (let img = imgs_path w ! i in
         case os_remove env img w of
           (Inl ex, w1) \<Rightarrow> (Inl ex, w1)
         | (Inr u, w1) \<Rightarrow>
             if path_exists w1 img then (Inl OSError, w1)
             else clear_loop env i (w1\<lparr>imgs_path := remove1 img (imgs_path w1)\<rparr>))
      else (Inr (), w))"

definition clear_attempt :: "env \<Rightarrow> world \<Rightarrow> (exn + unit) \<times> world" where
  "clear_attempt env w = clear_loop env (length (imgs_path w)) w"

definition clearAfterSave :: "env \<Rightarrow> world \<Rightarrow> ((exn + unit) \<times> world) option" where
  "clearAfterSave env w =
     (case Retrying_call (site_kwargs env SiteClear) (clear_attempt env) w of
        None \<Rightarrow> None
      | Some (Inl ex, w1) \<Rightarrow>
          if ex = OSError then Some (Inr (), emit (MessageBox ClearFailed) w1)
          else Some (Inl ex, w1)
      | Some (Inr u, w1) \<Rightarrow> Some (Inr (), w1))"

subsection \<open>The three save methods\<close>

definition meta_title :: "episode \<Rightarrow> ustr" where
  "meta_title e = [12298] @ comic_name e @ [12299] @ [32, 45, 32] @ title e"

text \<open>The values of /Title, /Author and /Creator.\<close>

definition pdf_metadata :: "env \<Rightarrow> episode \<Rightarrow> ustr list" where
  "pdf_metadata env e =
     [meta_title e, author e, app_name env @ [32] @ app_version env @ [32] @ app_copyright env]"

text \<open>The values of ImageDescription, Artist, Software and Copyright.\<close>

definition exif_tags :: "env \<Rightarrow> episode \<Rightarrow> ustr list" where
  "exif_tags env e =
     [meta_title e, author e, app_name env @ [32] @ app_version env, app_copyright env]"

text \<open>\<open>open(p, "rb")\<close> and \<open>PdfReader\<close>: the pages of the document at \<open>p\<close>.\<close>

definition read_pdf :: "env \<Rightarrow> ustr \<Rightarrow> world \<Rightarrow> (exn + image list) \<times> world" where
  "read_pdf env p w =
     (let w1 = w\<lparr>tick := Suc (tick w)\<rparr> in
      case fs_fault env (tick w) of
        NoFault \<Rightarrow>
          (case map_of (files w) p of
             Some (File (PdfPages ps)) \<Rightarrow> (Inr ps, w1)
           | Some (File (PdfDoc ps m)) \<Rightarrow> (Inr ps, w1)
           | _ \<Rightarrow> (Inl OSError, w1))
      | _ \<Rightarrow> (Inl OSError, w1))"

text \<open>One attempt of the inner function of \<open>saveToPDF\<close>.\<close>

definition pdf_attempt :: "env \<Rightarrow> episode \<Rightarrow> image list \<Rightarrow> world \<Rightarrow> (exn + unit) \<times> world" where
  "pdf_attempt env e temp_imgs w =
     (case temp_imgs of
        [] \<Rightarrow> (Inl IndexError, w)
      | img # rest \<Rightarrow>
          (case write_file env (epi_path_pdf e) (PdfPages (img # rest)) w of
             (Inl ex, w1) \<Rightarrow> (Inl ex, w1)
           | (Inr u, w1) \<Rightarrow>
               (case read_pdf env (epi_path_pdf e) w1 of
                  (Inl ex, w2) \<Rightarrow> (Inl ex, w2)
                | (Inr ps, w2) \<Rightarrow>
                    write_file env (epi_path_pdf e) (PdfDoc ps (pdf_metadata env e)) w2)))"

definition saveToPDF ::
    "env \<Rightarrow> episode \<Rightarrow> image list \<Rightarrow> world \<Rightarrow> ((exn + unit) \<times> world) option" where
  "saveToPDF env e temp_imgs w =
     (case Retrying_call (site_kwargs env SitePdf) (pdf_attempt env e temp_imgs) w of
        None \<Rightarrow> None
      | Some (Inl ex, w1) \<Rightarrow>
          if ex = OSError then Some (Inr (), emit (MessageBox PdfFailed) w1)
          else Some (Inl ex, w1)
      | Some (Inr u, w1) \<Rightarrow> Some (Inr (), w1))"

text \<open>\<open>str(index).zfill(3)\<close>\<close>

definition zfill3 :: "ustr \<Rightarrow> ustr" where
  "zfill3 s = replicate (3 - length s) 48 @ s"

definition page_name :: "nat \<Rightarrow> ustr" where
  "page_name index = zfill3 (str_nat index) @ [46, 106, 112, 103]"

text \<open>The loop of the inner function of \<open>saveToFolder\<close>, from \<open>index\<close> on.\<close>

fun save_images :: "env \<Rightarrow> episode \<Rightarrow> image list \<Rightarrow> nat \<Rightarrow> world \<Rightarrow> (exn + unit) \<times> world" where
  "save_images env e [] index w = (Inr (), w)"
| "save_images env e (img # rest) index w =
     (case write_in_dir env (epi_path_folder e) (page_name index)
             (Jpeg img (exif_tags env e)) w of
        (Inl ex, w1) \<Rightarrow> (Inl ex, w1)
      | (Inr u, w1) \<Rightarrow> save_images env e rest (Suc index) w1)"

definition saveToFolder ::
    "env \<Rightarrow> episode \<Rightarrow> image list \<Rightarrow> world \<Rightarrow> ((exn + unit) \<times> world) option" where
  "saveToFolder env e temp_imgs w =
     (case (if \<not> path_exists w (epi_path_folder e) then makedirs env (epi_path_folder e) w
            else (Inr (), w)) of
        (Inl ex, w1) \<Rightarrow>
          if ex = OSError then Some (Inr (), emit (MessageBox FolderFailed) w1)
          else Some (Inl ex, w1)
      | (Inr u, w1) \<Rightarrow>
          (case Retrying_call (site_kwargs env SiteFolder)
                  (save_images env e temp_imgs 1) w1 of
             None \<Rightarrow> None
           | Some (Inl ex, w2) \<Rightarrow>
               if ex = OSError then Some (Inr (), emit (MessageBox FolderFailed) w2)
               else Some (Inl ex, w2)
           | Some (Inr u, w2) \<Rightarrow> Some (Inr (), w2)))"

text \<open>
  One attempt of the inner function of \<open>saveTo7z\<close>: the archive takes the files that
  \<open>os.walk\<close> finds in the folder, under their base names; the folder is removed
  before the archive is closed, so the archive is complete when \<open>rmtree\<close> fails.
\<close>

definition sevenz_attempt :: "env \<Rightarrow> episode \<Rightarrow> world \<Rightarrow> (exn + unit) \<times> world" where
  "sevenz_attempt env e w =
     (let entries = (case map_of (files w) (epi_path_folder e) of
                       Some (Dir es) \<Rightarrow> es
                     | _ \<Rightarrow> [])
      in case write_file env (epi_path_7z e) (SevenZip entries) w of
           (Inl ex, w1) \<Rightarrow> (Inl ex, w1)
         | (Inr u, w1) \<Rightarrow> rmtree env (epi_path_folder e) w1)"

definition saveTo7z ::
    "env \<Rightarrow> episode \<Rightarrow> image list \<Rightarrow> world \<Rightarrow> ((exn + unit) \<times> world) option" where
  "saveTo7z env e temp_imgs w =
     (case saveToFolder env e temp_imgs w of
        None \<Rightarrow> None
      | Some (Inl ex, w1) \<Rightarrow> Some (Inl ex, w1)
      | Some (Inr u, w1) \<Rightarrow>
          (case Retrying_call (site_kwargs env SiteSevenZ) (sevenz_attempt env e) w1 of
             None \<Rightarrow> None
           | Some (Inl ex, w2) \<Rightarrow>
               if ex = OSError then Some (Inr (), emit (MessageBox SevenZFailed) w2)
               else Some (Inl ex, w2)
           | Some (Inr u, w2) \<Rightarrow> Some (Inr (), w2)))"

subsection \<open>download\<close>

text \<open>\<open>Image.open\<close> of a temporary file.\<close>

definition Image_open :: "env \<Rightarrow> world \<Rightarrow> ustr \<Rightarrow> exn + image" where
  "Image_open env w p =
     (case map_of (files w) p of
        Some (File (Raw b)) \<Rightarrow>
          (case image_mode env b of Some m \<Rightarrow> Inr (Image m b) | None \<Rightarrow> Inl OSError)
      | _ \<Rightarrow> Inl OSError)"

fun open_images :: "env \<Rightarrow> world \<Rightarrow> ustr list \<Rightarrow> exn + image list" where
  "open_images env w [] = Inr []"
| "open_images env w (p # ps) =
     (case Image_open env w p of
        Inl ex \<Rightarrow> Inl ex
      | Inr img \<Rightarrow>
          (case open_images env w ps of Inl ex \<Rightarrow> Inl ex | Inr imgs \<Rightarrow> Inr (img # imgs)))"

definition to_rgb :: "image \<Rightarrow> image" where
  "to_rgb img = (if mode img \<noteq> ''RGB'' then Image ''RGB'' (pixels img) else img)"

text \<open>
  The loop over \<open>enumerate(self.imgs_token, start=1)\<close>, from \<open>index\<close> on; \<open>n\<close> is
  \<open>len(self.imgs_token)\<close>. \<open>Inr True\<close>: the loop ended and \<open>download\<close> goes on;
  \<open>Inr False\<close>: \<open>download\<close> returned from inside the loop.
\<close>

fun download_pages ::
    "env \<Rightarrow> episode \<Rightarrow> ustr \<Rightarrow> nat \<Rightarrow> (ustr \<times> ustr) list \<Rightarrow> nat \<Rightarrow> world
       \<Rightarrow> ((exn + bool) \<times> world) option" where
  "download_pages env e taskID n [] index w = Some (Inr True, w)"
| "download_pages env e taskID n (img # rest) index w =
     (case downloadImg env e index (fst img @ [63, 116, 111, 107, 101, 110, 61] @ snd img) w of
        None \<Rightarrow> None
      | Some (Inl ex, w1) \<Rightarrow> Some (Inl ex, w1)
      | Some (Inr None, w1) \<Rightarrow>
          (case clearAfterSave env (emit (RateProgress taskID (- 1) None) w1) of
             None \<Rightarrow> None
           | Some (Inl ex, w2) \<Rightarrow> Some (Inl ex, w2)
           | Some (Inr u, w2) \<Rightarrow> Some (Inr False, w2))
      | Some (Inr (Some img_path), w1) \<Rightarrow>
          (let w2 = w1\<lparr>imgs_path := imgs_path w1 @ [img_path]\<rparr> in
           case epi_path e of
             None \<Rightarrow> Some (Inl AttributeError, w2)
           | Some p \<Rightarrow>
               download_pages env e taskID n rest (Suc index)
                 (emit (RateProgress taskID (rate_of env index n) (Some p)) w2)))"

definition dispatch_save ::
    "env \<Rightarrow> episode \<Rightarrow> image list \<Rightarrow> world \<Rightarrow> ((exn + unit) \<times> world) option" where
  "dispatch_save env e temp_imgs w =
     (if save_method e = METHOD_PDF
        then saveToPDF env e temp_imgs (emit (Assemble METHOD_PDF) w)
      else if save_method e = METHOD_FOLDER
        then saveToFolder env e temp_imgs (emit (Assemble METHOD_FOLDER) w)
      else if save_method e = METHOD_7Z
        then saveTo7z env e temp_imgs (emit (Assemble METHOD_7Z) w)
      else Some (Inr (), w))"

definition download :: "env \<Rightarrow> episode \<Rightarrow> ustr \<Rightarrow> world \<Rightarrow> ((exn + unit) \<times> world) option" where
  "download env e taskID w =
     (case init_imgsList env e w of
        None \<Rightarrow> None
      | Some (Inl ex, e1, w1) \<Rightarrow> Some (Inl ex, w1)
      | Some (Inr ok, e1, w1) \<Rightarrow>
          (let w2 = (if \<not> ok then emit (RateProgress taskID (- 1) None) w1 else w1);
               w3 = w2\<lparr>imgs_path := []\<rparr>
           in case imgs_token e1 of
                None \<Rightarrow> Some (Inl TypeError, w3)
              | Some toks \<Rightarrow>
                  (case download_pages env e1 taskID (length toks) toks 1 w3 of
                     None \<Rightarrow> None
                   | Some (Inl ex, w4) \<Rightarrow> Some (Inl ex, w4)
                   | Some (Inr False, w4) \<Rightarrow> Some (Inr (), w4)
                   | Some (Inr True, w4) \<Rightarrow>
                       (case open_images env w4 (imgs_path w4) of
                          Inl ex \<Rightarrow> Some (Inl ex, w4)
                        | Inr imgs \<Rightarrow>
                            (case dispatch_save env e1 (map to_rgb imgs) w4 of
                               None \<Rightarrow> None
                             | Some (Inl ex, w5) \<Rightarrow> Some (Inl ex, w5)
                             | Some (Inr u, w5) \<Rightarrow> clearAfterSave env w5)))))"

text \<open>Up to \<open>k + 1\<close> attempts, one after the other, without waiting.\<close>

fun attempts :: "nat \<Rightarrow> (world \<Rightarrow> (exn + 'a) \<times> world) \<Rightarrow> world \<Rightarrow> (exn + 'a) \<times> world" where
  "attempts 0 fn w = fn w"
| "attempts (Suc k) fn w =
     (case fn w of
        (Inr v, w1) \<Rightarrow> (Inr v, w1)
      | (Inl e, w1) \<Rightarrow> attempts k fn w1)"

definition is_network :: "call_site \<Rightarrow> bool" where
  "is_network site \<longleftrightarrow> site = SiteImageIndex \<or> site = SiteImageToken \<or> site = SitePageGet"

section \<open>A concrete environment\<close>

text \<open>
  An environment for concrete runs: every request is answered after 10 ms with status
  200, the image index lists two pages, a page's body is its URL and carries a matching
  checksum (the MD5 of this environment is the identity), and the disk never fails.
  The rate is the one of an episode of two pages, the number that the image index of
  this environment lists: \<open>int((1 / 2) * 100)\<close> is 50 and \<open>int((2 / 2) * 100)\<close> is
  100, both exact in floating point.
  In \<open>offline_env\<close> every request fails after one second.
\<close>

definition plain_response :: response where
  "plain_response =
     \<lparr>status_code = 200, etag = None, res_content = [], images = Inl KeyError,
      tokens = Inl KeyError\<rparr>"

definition demo_net :: "nat \<Rightarrow> request \<Rightarrow> response option \<times> nat" where
  "demo_net k rq =
     (case rq of
        GetImageIndex i \<Rightarrow> (Some (plain_response\<lparr>images := Inr [Some [47, 97], Some [47, 98]]\<rparr>), 10)
      | ImageToken us \<Rightarrow>
          (Some (plain_response\<lparr>tokens := Inr (map (\<lambda>u. (120 # u, [116])) us)\<rparr>), 10)
      | GetImage u \<Rightarrow> (Some (plain_response\<lparr>etag := Some u, res_content := u\<rparr>), 10))"

definition demo_env :: env where
  "demo_env =
     \<lparr>MAX_RETRY_SMALL = 5000, MAX_RETRY_LARGE = 10000, RETRY_WAIT_EX = 200,
      app_name = [65], app_version = [49], app_copyright = [67],
      md5_hexdigest = (\<lambda>b. b), image_mode = (\<lambda>b. Some ''L''),
      rate_of = (\<lambda>i n. int (50 * i)),
      net_reply = demo_net, fs_fault = (\<lambda>k. NoFault)\<rparr>"

definition offline_env :: env where
  "offline_env = demo_env\<lparr>net_reply := (\<lambda>k rq. (None, 1000))\<rparr>"

definition empty_world :: world where
  "empty_world = \<lparr>files = [], clock = 0, tick = 0, imgs_path = [], trace = []\<rparr>"

text \<open>The episode with short title "1" and no long title, ordinal 12, saved under "d".\<close>

definition demo_episode :: "ustr \<Rightarrow> episode" where
  "demo_episode method =
     Episode_init ascii_digit
       \<lparr>raw_id = 7, is_locked = False, raw_ord = 12, short_title = [49], long_title = []\<rparr>
       \<lparr>info_title = [66], author_name = [67], info_save_path = [100]\<rparr> method"

text \<open>The entries into a save method among the events so far.\<close>

definition assemblies :: "world \<Rightarrow> event list" where
  "assemblies w = filter (\<lambda>ev. case ev of Assemble m \<Rightarrow> True | _ \<Rightarrow> False) (trace w)"

text \<open>
  In \<open>not_found_env\<close> every request is answered with status 404 and a body whose
  checksum header matches.
\<close>

definition not_found_env :: env where
  "not_found_env =
     demo_env\<lparr>net_reply :=
       (\<lambda>k rq. (Some (plain_response\<lparr>status_code := 404, etag := Some [110],
                                        res_content := [110]\<rparr>), 10))\<rparr>"

text \<open>
  The two sets of keyword arguments that the decorators of the source are written
  with: \<open>@retry(stop_max_delay=cap, wait_exponential_multiplier=multiplier)\<close> and
  \<open>@retry(stop_max_attempt_number=n)\<close>.
\<close>

definition timed :: "int \<Rightarrow> int \<Rightarrow> retry_kwargs" where
  "timed cap multiplier =
     \<lparr>stop_max_attempt_number = None, stop_max_delay = Some cap,
      wait_exponential_multiplier = Some multiplier\<rparr>"

definition counted :: "nat \<Rightarrow> retry_kwargs" where
  "counted n =
     \<lparr>stop_max_attempt_number = Some n, stop_max_delay = None,
      wait_exponential_multiplier = None\<rparr>"

text \<open>In \<open>first_fault_env\<close> the first disk operation fails and every later one succeeds.\<close>

definition first_fault_env :: env where
  "first_fault_env = demo_env\<lparr>fs_fault := (\<lambda>k. if k = 0 then FailClean else NoFault)\<rparr>"

section \<open>main.py: the command-line script\<close>

text \<open>
  The \<open>Episode\<close> class of \<open>main.py\<close>: one format (PDF), no retry decorator, no
  signals. \<open>exit(1)\<close> is the exception \<open>SystemExit\<close>; what \<open>requests\<close> raises is not
  caught.
\<close>

record cli_episode =
  cli_id :: int
  cli_available :: bool
  cli_ord :: int
  cli_title :: ustr
  cli_savePath :: ustr

definition cli_Episode_init :: "raw_episode \<Rightarrow> ustr \<Rightarrow> cli_episode" where
  "cli_Episode_init ep savePath =
     \<lparr>cli_id = raw_id ep, cli_available = \<not> is_locked ep, cli_ord = raw_ord ep,
      cli_title = sub_forbidden (short_title ep @ [32] @ long_title ep),
      cli_savePath = savePath\<rparr>"

text \<open>\<open>f'{self.savePath}/{self.title}.pdf'\<close>, the path of the skip check.\<close>

definition cli_pdf_path :: "cli_episode \<Rightarrow> ustr" where
  "cli_pdf_path e = cli_savePath e @ [47] @ cli_title e @ [46, 112, 100, 102]"

definition cli_temp_path :: "cli_episode \<Rightarrow> nat \<Rightarrow> ustr" where
  "cli_temp_path e index =
     path_join (cli_savePath e)
       (str_int (cli_ord e) @ [95] @ str_nat index @ [46, 106, 112, 103])"

text \<open>\<open>Response.ok\<close>: the status is no client or server error.\<close>

definition res_ok :: "response \<Rightarrow> bool" where
  "res_ok res \<longleftrightarrow> \<not> (400 \<le> status_code res \<and> status_code res < 600)"

text \<open>
  The \<open>while True\<close> loop of \<open>downloadImg\<close>: each round appends the token to the URL
  of the round before and requests it; it ends when the checksum header equals the MD5
  of the body.
\<close>

partial_function (option) cli_fetch_loop ::
    "env \<Rightarrow> ustr \<Rightarrow> ustr \<Rightarrow> world \<Rightarrow> ((exn + bytes) \<times> world) option" where
  "cli_fetch_loop env url token w =
     (case send env (GetImage (url @ [63, 116, 111, 107, 101, 110, 61] @ token)) w of
        (None, w1) \<Rightarrow> Some (Inl RequestException, w1)
      | (Some res, w1) \<Rightarrow>
          (case etag res of
             None \<Rightarrow> Some (Inl KeyError, w1)
           | Some t \<Rightarrow>
               if t = md5_hexdigest env (res_content res) then Some (Inr (res_content res), w1)
               else cli_fetch_loop env (url @ [63, 116, 111, 107, 101, 110, 61] @ token)
                      token w1))"

definition cli_downloadImg ::
    "env \<Rightarrow> cli_episode \<Rightarrow> nat \<Rightarrow> ustr \<Rightarrow> ustr \<Rightarrow> world \<Rightarrow> ((exn + ustr) \<times> world) option" where
  "cli_downloadImg env e index url token w =
     (case cli_fetch_loop env url token w of
        None \<Rightarrow> None
      | Some (Inl ex, w1) \<Rightarrow> Some (Inl ex, w1)
      | Some (Inr b, w1) \<Rightarrow>
          (case write_file env (cli_temp_path e index) (Raw b) w1 of
             (Inl ex, w2) \<Rightarrow> Some (Inl ex, w2)
           | (Inr u, w2) \<Rightarrow> Some (Inr (cli_temp_path e index), w2)))"

text \<open>The list comprehension over \<open>enumerate(res.json()['data'], start=1)\<close>.\<close>

fun cli_download_pages ::
    "env \<Rightarrow> cli_episode \<Rightarrow> (ustr \<times> ustr) list \<Rightarrow> nat \<Rightarrow> world
       \<Rightarrow> ((exn + ustr list) \<times> world) option" where
  "cli_download_pages env e [] index w = Some (Inr [], w)"
| "cli_download_pages env e (img # rest) index w =
     (case cli_downloadImg env e index (fst img) (snd img) w of
        None \<Rightarrow> None
      | Some (Inl ex, w1) \<Rightarrow> Some (Inl ex, w1)
      | Some (Inr p, w1) \<Rightarrow>
          (case cli_download_pages env e rest (Suc index) w1 of
             None \<Rightarrow> None
           | Some (Inl ex, w2) \<Rightarrow> Some (Inl ex, w2)
           | Some (Inr ps, w2) \<Rightarrow> Some (Inr (p # ps), w2)))"

text \<open>\<open>for img in imgs: remove(img)\<close>\<close>

fun cli_remove_all :: "env \<Rightarrow> ustr list \<Rightarrow> world \<Rightarrow> (exn + unit) \<times> world" where
  "cli_remove_all env [] w = (Inr (), w)"
| "cli_remove_all env (p # ps) w =
     (case os_remove env p w of
        (Inl ex, w1) \<Rightarrow> (Inl ex, w1)
      | (Inr u, w1) \<Rightarrow> cli_remove_all env ps w1)"

text \<open>
  The end of \<open>download\<close>: the temporary files are opened and converted, the PDF is
  written in one \<open>save\<close>, and the temporary files are removed.
\<close>

definition cli_save ::
    "env \<Rightarrow> cli_episode \<Rightarrow> ustr list \<Rightarrow> world \<Rightarrow> ((exn + bool) \<times> world) option" where
  "cli_save env e imgs w =
     (case open_images env w imgs of
        Inl ex \<Rightarrow> Some (Inl ex, w)
      | Inr opened \<Rightarrow>
          (case map to_rgb opened of
             [] \<Rightarrow> Some (Inl IndexError, w)
           | tempImg # tempImgs \<Rightarrow>
               (case write_file env (path_join (cli_savePath e) (cli_title e @ [46, 112, 100, 102]))
                       (PdfPages (tempImg # tempImgs)) w of
                  (Inl ex, w1) \<Rightarrow> Some (Inl ex, w1)
                | (Inr u, w1) \<Rightarrow>
                    (case cli_remove_all env imgs w1 of
                       (Inl ex, w2) \<Rightarrow> Some (Inl ex, w2)
                     | (Inr u, w2) \<Rightarrow> Some (Inr True, w2)))))"

text \<open>\<open>download\<close> after the skip check: it returns \<open>True\<close> or raises.\<close>

definition cli_fetch_and_save ::
    "env \<Rightarrow> cli_episode \<Rightarrow> world \<Rightarrow> ((exn + bool) \<times> world) option" where
  "cli_fetch_and_save env e w =
     (case send env (GetImageIndex (cli_id e)) w of
        (None, w1) \<Rightarrow> Some (Inl RequestException, w1)
      | (Some res, w1) \<Rightarrow>
          if \<not> res_ok res then Some (Inl SystemExit, w1)
          else
            (case images res of
               Inl ex \<Rightarrow> Some (Inl ex, w1)
             | Inr imgs \<Rightarrow>
                 (case those imgs of
                    None \<Rightarrow> Some (Inl KeyError, w1)
                  | Some paths \<Rightarrow>
                      (case send env (ImageToken paths) w1 of
                         (None, w2) \<Rightarrow> Some (Inl RequestException, w2)
                       | (Some res2, w2) \<Rightarrow>
                           if \<not> res_ok res2 then Some (Inl SystemExit, w2)
                           else
                             (case tokens res2 of
                                Inl ex \<Rightarrow> Some (Inl ex, w2)
                              | Inr toks \<Rightarrow>
                                  (case cli_download_pages env e toks 1 w2 of
                                     None \<Rightarrow> None
                                   | Some (Inl ex, w3) \<Rightarrow> Some (Inl ex, w3)
                                   | Some (Inr imgs, w3) \<Rightarrow> cli_save env e imgs w3))))))"

definition cli_download :: "env \<Rightarrow> cli_episode \<Rightarrow> world \<Rightarrow> ((exn + bool) \<times> world) option" where
  "cli_download env e w =
     (if path_exists w (cli_pdf_path e) then Some (Inr False, w)
      else cli_fetch_and_save env e w)"

section \<open>The integrity test as the specification words it\<close>

text \<open>
  "Integrity holds iff \<open>header_checksum == MD5(body)\<close>": the reply carries a checksum
  header and it equals the MD5 hex digest of the body.
\<close>

definition integrity_holds :: "env \<Rightarrow> response \<Rightarrow> bool" where
  "integrity_holds env res \<longleftrightarrow> etag res = Some (md5_hexdigest env (res_content res))"

text \<open>
  The reports of a failed page among the events so far: the two message boxes of
  \<open>downloadImg\<close>, each followed by \<open>return None\<close>.
\<close>

definition page_failures :: "world \<Rightarrow> event list" where
  "page_failures w =
     filter (\<lambda>ev. ev = MessageBox DownloadFailed \<or> ev = MessageBox SaveImgFailed) (trace w)"

text \<open>
  In \<open>page_not_found_env\<close> the metadata requests are answered as in \<open>demo_env\<close> and
  every page request is answered with status 404 and a body whose checksum header
  matches.
\<close>

definition page_not_found_env :: env where
  "page_not_found_env =
     demo_env\<lparr>net_reply :=
       (\<lambda>k rq. case rq of
                  GetImage u \<Rightarrow>
                    (Some (plain_response\<lparr>status_code := 404, etag := Some [110],
                                           res_content := [110]\<rparr>), 10)
                | _ \<Rightarrow> demo_net k rq)\<rparr>"

section \<open>Properties of the matcher\<close>

lemma first_match_append:
  "first_match (xs @ ys) = (case first_match xs of None \<Rightarrow> first_match ys | Some x \<Rightarrow> Some x)"
  by (induction xs rule: first_match.induct) auto

lemma first_match_single [simp]: "first_match [x] = x"
  by (cases x) auto

lemma first_match_Some: "first_match xs = Some y \<Longrightarrow> Some y \<in> set xs"
  by (induction xs rule: first_match.induct) (auto split: if_splits)

lemma cuts_sound:
  "(a, b) \<in> set (cuts p s) \<Longrightarrow> a \<noteq> [] \<and> list_all p a \<and> a @ b = s"
  by (induction s arbitrary: a b) (auto split: if_splits)

lemma match_items_sound:
  "match_items its s = Some (ms, r) \<Longrightarrow> list_all2 item_ok its ms \<and> concat ms @ r = s"
proof (induction its s arbitrary: ms r rule: match_items.induct)
  case (1 s)
  then show ?case by simp
next
  case (2 p its s)
  then show ?case by (auto split: list.splits if_splits)
next
  case (3 p its s)
  from "3.prems" have "Some (ms, r) \<in>
      (\<lambda>(a, b). map_option (\<lambda>(ms, r). (a # ms, r)) (match_items its b)) ` set (cuts p s)"
    by (auto dest: first_match_Some)
  then obtain x where x: "x \<in> set (cuts p s)"
    and m0: "Some (ms, r) =
      (\<lambda>(a, b). map_option (\<lambda>(ms, r). (a # ms, r)) (match_items its b)) x"
    by (rule imageE)
  obtain a b where xab: "x = (a, b)" by (cases x)
  from x xab have ab: "(a, b) \<in> set (cuts p s)" by simp
  from m0 xab have m: "map_option (\<lambda>(ms, r). (a # ms, r)) (match_items its b) = Some (ms, r)"
    by simp
  from m obtain ms' where ms': "match_items its b = Some (ms', r)" "ms = a # ms'"
    by auto
  from "3.IH"[OF ab refl ms'(1)] cuts_sound[OF ab] ms'(2) show ?case
    by auto
qed

lemma cuts_empty: "takeWhile p s = [] \<Longrightarrow> cuts p s = []"
  by (cases s) (auto split: if_splits)

lemma first_match_cuts_reject:
  "(\<And>a c cs. p c \<Longrightarrow> f (a, c # cs) = None) \<Longrightarrow>
   first_match (map f (cuts p s)) =
     (if takeWhile p s = [] then None else f (takeWhile p s, dropWhile p s))"
proof (induction s arbitrary: f)
  case Nil
  then show ?case by simp
next
  case (Cons c cs)
  show ?case
  proof (cases "p c")
    case False
    then show ?thesis by simp
  next
    case True
    let ?g = "\<lambda>(a, b). (c # a, b)"
    have r: "\<And>a c' cs'. p c' \<Longrightarrow> (f \<circ> ?g) (a, c' # cs') = None"
      using Cons.prems by simp
    have ih: "first_match (map (f \<circ> ?g) (cuts p cs)) =
        (if takeWhile p cs = [] then None else (f \<circ> ?g) (takeWhile p cs, dropWhile p cs))"
      using Cons.IH[of "f \<circ> ?g"] r by blast
    show ?thesis
    proof (cases "takeWhile p cs = []")
      case e: True
      then have "dropWhile p cs = cs" by (cases cs) (auto split: if_splits)
      with True e ih show ?thesis by (simp add: first_match_append cuts_empty)
    next
      case ne: False
      then obtain c' cs' where cs: "cs = c' # cs'" "p c'" by (cases cs) (auto split: if_splits)
      have "f ([c], cs) = None" using Cons.prems[OF cs(2)] cs(1) by simp
      with True ne ih show ?thesis by (simp add: first_match_append split: option.splits)
    qed
  qed
qed

lemma first_match_cuts_accept:
  "(\<And>x. f x \<noteq> None) \<Longrightarrow>
   first_match (map f (cuts p s)) =
     (if takeWhile p s = [] then None else f (takeWhile p s, dropWhile p s))"
proof (induction s arbitrary: f)
  case Nil
  then show ?case by simp
next
  case (Cons c cs)
  show ?case
  proof (cases "p c")
    case False
    then show ?thesis by simp
  next
    case True
    let ?g = "\<lambda>(a, b). (c # a, b)"
    have r: "\<And>x. (f \<circ> ?g) x \<noteq> None"
      using Cons.prems by (simp add: case_prod_beta)
    have ih: "first_match (map (f \<circ> ?g) (cuts p cs)) =
        (if takeWhile p cs = [] then None else (f \<circ> ?g) (takeWhile p cs, dropWhile p cs))"
      using Cons.IH[of "f \<circ> ?g"] r by blast
    show ?thesis
    proof (cases "takeWhile p cs = []")
      case e: True
      then have "dropWhile p cs = cs" by (cases cs) (auto split: if_splits)
      with True e ih show ?thesis by (simp add: first_match_append cuts_empty)
    next
      case ne: False
      obtain y where "f (c # takeWhile p cs, dropWhile p cs) = Some y"
        using Cons.prems[of "(c # takeWhile p cs, dropWhile p cs)"] by auto
      with True ne ih show ?thesis by (simp add: first_match_append split: option.splits)
    qed
  qed
qed

lemma match_Many1_reject:
  assumes "\<And>c cs. p c \<Longrightarrow> match_items its (c # cs) = None"
  shows "match_items (Many1 p # its) s =
     (if takeWhile p s = [] then None
      else map_option (\<lambda>(ms, r). (takeWhile p s # ms, r)) (match_items its (dropWhile p s)))"
  using first_match_cuts_reject[of p
      "\<lambda>(a, b). map_option (\<lambda>(ms, r). (a # ms, r)) (match_items its b)" s] assms
  by simp

lemma match_Many1_last:
  "match_items [Many1 p] s =
     (if takeWhile p s = [] then None else Some ([takeWhile p s], dropWhile p s))"
  using first_match_cuts_accept[of
      "\<lambda>(a, b). map_option (\<lambda>(ms, r). (a # ms, r)) (match_items [] b)" p s]
  by (simp add: case_prod_beta)

lemma match_head_reject_One: "\<not> p c \<Longrightarrow> match_items (One p # its) (c # cs) = None"
  by simp

lemma match_head_reject_Many1: "\<not> p c \<Longrightarrow> match_items (Many1 p # its) (c # cs) = None"
  by simp

section \<open>The code's title against the rules\<close>

lemma trim_right_Nil_iff: "trim_right s = [] \<longleftrightarrow> (\<forall>c \<in> set s. isspace c)"
  by (induction s) auto

lemma trim_right_eq: "trim_right s = sub_trailing_space s"
proof (induction s)
  case Nil
  then show ?case by (simp add: sub_trailing_space_def)
next
  case (Cons c cs)
  show ?case
  proof (cases "\<forall>x \<in> set cs. isspace x")
    case True
    then have "dropWhile isspace (rev cs) = []" by simp
    with True show ?thesis
      by (simp add: sub_trailing_space_def dropWhile_append trim_right_Nil_iff)
  next
    case False
    then have "dropWhile isspace (rev cs) \<noteq> []" by simp
    with False Cons show ?thesis
      by (auto simp: sub_trailing_space_def dropWhile_append trim_right_Nil_iff)
  qed
qed

lemma spec_rule1_eq: "spec_rule1 s = sub_forbidden s"
  by (simp add: spec_rule1_def sub_forbidden_def forbidden_def)

lemma spec_rule3_eq: "spec_rule3 s = sub_dot s"
  by (induction s) (auto simp: spec_rule3_def sub_dot_def)

lemma spec_rule4_eq: "spec_rule4 a b = join_titles a b"
  by (simp add: spec_rule4_def join_titles_def)

lemma match_dup_num:
  assumes ds: "\<And>c. dec c \<Longrightarrow> \<not> isspace c" and d2: "\<not> dec 35805"
  shows "match_items (re_dup_num dec) t =
     (let d1 = takeWhile dec t; r1 = dropWhile dec t;
          w = takeWhile isspace r1; r2 = dropWhile isspace r1;
          d2 = takeWhile dec (tl r2); r3 = dropWhile dec (tl r2)
      in if d1 \<noteq> [] \<and> w \<noteq> [] \<and> r2 \<noteq> [] \<and> hd r2 = 31532 \<and> d2 \<noteq> [] \<and>
            r3 \<noteq> [] \<and> hd r3 = 35805
         then Some ([d1, w, [31532], d2, [35805]], tl r3)
         else None)"
proof -
  let ?i4 = "[One (\<lambda>c. c = 35805)]"
  let ?i3 = "Many1 dec # ?i4"
  let ?i2 = "One (\<lambda>c. c = 31532) # ?i3"
  let ?i1 = "Many1 isspace # ?i2"
  have a1: "\<And>c cs. dec c \<Longrightarrow> match_items ?i1 (c # cs) = None"
    using ds by simp
  have a2: "\<And>c cs. isspace c \<Longrightarrow> match_items ?i2 (c # cs) = None"
    by (auto simp: isspace_def)
  have a3: "\<And>c cs. dec c \<Longrightarrow> match_items ?i4 (c # cs) = None"
    using d2 by auto
  have m4: "\<And>s. match_items ?i4 s =
      (if s \<noteq> [] \<and> hd s = 35805 then Some ([[35805]], tl s) else None)"
    by (auto split: list.splits)
  have m3: "\<And>s. match_items ?i3 s =
      (if takeWhile dec s = [] then None
       else map_option (\<lambda>(ms, r). (takeWhile dec s # ms, r)) (match_items ?i4 (dropWhile dec s)))"
    by (rule match_Many1_reject[OF a3])
  have m2: "\<And>s. match_items ?i2 s =
      (if s \<noteq> [] \<and> hd s = 31532
       then map_option (\<lambda>(ms, r). ([31532] # ms, r)) (match_items ?i3 (tl s)) else None)"
    by (auto split: list.splits)
  have m1: "\<And>s. match_items ?i1 s =
      (if takeWhile isspace s = [] then None
       else map_option (\<lambda>(ms, r). (takeWhile isspace s # ms, r))
              (match_items ?i2 (dropWhile isspace s)))"
    by (rule match_Many1_reject[OF a2])
  have m0: "match_items (Many1 dec # ?i1) t =
      (if takeWhile dec t = [] then None
       else map_option (\<lambda>(ms, r). (takeWhile dec t # ms, r))
              (match_items ?i1 (dropWhile dec t)))"
    by (rule match_Many1_reject[OF a1])
  show ?thesis
    unfolding re_dup_num_def m0 m1 m2 m3 m4 by (simp add: Let_def)
qed

lemma spec_rule5_eq:
  assumes "\<And>c. dec c \<Longrightarrow> \<not> isspace c" and "\<not> dec 35805"
  shows "spec_rule5 (=) dec t = fix_dup_num dec t"
proof -
  note m = match_dup_num[of dec t, OF assms]
  show ?thesis
    by (auto simp: fix_dup_num_def spec_rule5_def m Let_def)
qed

lemma match_three:
  "match_items (One (\<lambda>c. c = x) # One (\<lambda>c. c = y) # One (\<lambda>c. c = z) # its) s =
     (if take 3 s = [x, y, z]
      then map_option (\<lambda>(ms, r). ([x] # [y] # [z] # ms, r)) (match_items its (drop 3 s))
      else None)"
  by (auto simp: numeral_3_eq_3 option.map_comp comp_def split_def split: list.splits)

lemma match_special:
  "match_items re_special t =
     (let r = drop 3 t; w = takeWhile isspace r; r2 = dropWhile isspace r
      in if take 3 t = [29305, 21035, 31687] \<and> w \<noteq> [] \<and> take 3 r2 = [29305, 21035, 31687]
         then Some ([[29305], [21035], [31687], w, [29305], [21035], [31687]], drop 3 r2)
         else None)"
proof -
  let ?i2 = "[One (\<lambda>c. c = 29305), One (\<lambda>c. c = 21035), One (\<lambda>c. c = 31687)]"
  have a: "\<And>c cs. isspace c \<Longrightarrow> match_items ?i2 (c # cs) = None"
    by (auto simp: isspace_def)
  have m1: "\<And>s. match_items (Many1 isspace # ?i2) s =
      (if takeWhile isspace s = [] then None
       else map_option (\<lambda>(ms, r). (takeWhile isspace s # ms, r))
              (match_items ?i2 (dropWhile isspace s)))"
    by (rule match_Many1_reject[OF a])
  show ?thesis
    unfolding re_special_def match_three m1 by (simp add: Let_def)
qed

lemma spec_rule6_eq: "spec_rule6 t = fix_dup_special t"
proof -
  have "take 3 s = [a, b, c] \<Longrightarrow> s = a # b # c # drop 3 s" for s :: ustr and a b c
    by (metis append_take_drop_id append_Cons append_Nil)
  then show ?thesis
    by (auto simp: fix_dup_special_def spec_rule6_def match_special Let_def)
qed

lemma match_number_hua:
  "match_items [Many1 digit_hyphen, One (\<lambda>c. c = 35805)] t =
     (let d = takeWhile digit_hyphen t; r = dropWhile digit_hyphen t
      in if d \<noteq> [] \<and> r \<noteq> [] \<and> hd r = 35805 then Some ([d, [35805]], tl r) else None)"
proof -
  have a: "\<And>c cs. digit_hyphen c \<Longrightarrow> match_items [One (\<lambda>c. c = 35805)] (c # cs) = None"
    by (auto simp: digit_hyphen_def)
  have m: "match_items [One (\<lambda>c. c = 35805)] s =
      (if s \<noteq> [] \<and> hd s = 35805 then Some ([[35805]], tl s) else None)" for s
    by (auto split: list.splits)
  have m0: "match_items [Many1 digit_hyphen, One (\<lambda>c. c = 35805)] t =
      (if takeWhile digit_hyphen t = [] then None
       else map_option (\<lambda>(ms, r). (takeWhile digit_hyphen t # ms, r))
              (match_items [One (\<lambda>c. c = 35805)] (dropWhile digit_hyphen t)))"
    by (rule match_Many1_reject[OF a])
  show ?thesis
    unfolding m0 m by (simp add: Let_def)
qed

lemma spec_rule7_eq: "spec_rule7 t = fix_number t"
  by (auto simp: fix_number_def spec_rule7_def match_number_hua match_Many1_last Let_def
      simp del: match_items.simps)





section \<open>Applying the title computation twice\<close>

lemma clean_Nil: "clean []"
  by (simp add: clean_def)

lemma last_sub_trailing_space:
  "sub_trailing_space s \<noteq> [] \<Longrightarrow> \<not> isspace (last (sub_trailing_space s))"
  unfolding sub_trailing_space_def
  by (metis hd_dropWhile last_rev rev_is_Nil_conv)

lemma set_sub_trailing_space: "set (sub_trailing_space s) \<subseteq> set s"
  unfolding sub_trailing_space_def by (auto dest: set_dropWhileD)

lemma clean_fix_special: "clean (fix_special s)"
proof -
  let ?u = "sub_trailing_space (sub_forbidden s)"
  have n32: "\<not> forbidden 32" and n183: "\<not> forbidden 183" and s183: "\<not> isspace 183"
    by (simp_all add: forbidden_def isspace_def)
  have "\<forall>c \<in> set (sub_forbidden s). \<not> forbidden c"
    using n32 by (auto simp: sub_forbidden_def)
  then have f: "\<forall>c \<in> set ?u. \<not> forbidden c"
    using set_sub_trailing_space[of "sub_forbidden s"] by blast
  have l: "?u \<noteq> [] \<longrightarrow> \<not> isspace (last ?u)"
    using last_sub_trailing_space by blast
  have "\<forall>c \<in> set (sub_dot ?u). \<not> forbidden c \<and> c \<noteq> 46"
    using f n183 by (auto simp: sub_dot_def)
  moreover have "sub_dot ?u \<noteq> [] \<longrightarrow> \<not> isspace (last (sub_dot ?u))"
    using l s183 by (simp add: sub_dot_def last_map)
  ultimately show ?thesis
    by (simp add: clean_def fix_special_def)
qed

lemma fix_special_clean: "clean s \<Longrightarrow> fix_special s = s"
proof -
  assume c: "clean s"
  have 1: "sub_forbidden s = s"
    using c by (auto simp: clean_def sub_forbidden_def intro: map_idI)
  have 2: "sub_trailing_space s = s"
  proof (cases "s = []")
    case True
    then show ?thesis by (simp add: sub_trailing_space_def)
  next
    case False
    then have "\<not> isspace (hd (rev s))" using c by (simp add: clean_def hd_rev)
    then have "dropWhile isspace (rev s) = rev s"
      using False by (cases "rev s") auto
    then show ?thesis by (simp add: sub_trailing_space_def)
  qed
  have 3: "sub_dot s = s"
    using c by (auto simp: clean_def sub_dot_def intro: map_idI)
  show ?thesis by (simp add: fix_special_def 1 2 3)
qed

lemma clean_join: "clean a \<Longrightarrow> clean b \<Longrightarrow> clean (join_titles a b)"
  by (auto simp: clean_def join_titles_def forbidden_def)

lemma clean_suffix: "clean (a @ b) \<Longrightarrow> b \<noteq> [] \<Longrightarrow> clean b"
  by (auto simp: clean_def)

lemma fix_dup_num_shape:
  "fix_dup_num dec t = t \<or>
   (\<exists>p x. p @ 31532 # x = t \<and> fix_dup_num dec t = 31532 # x)"
proof (cases "match_items (re_dup_num dec) t")
  case None
  then show ?thesis by (simp add: fix_dup_num_def)
next
  case (Some mr)
  obtain ms r where mr: "mr = (ms, r)" by (cases mr)
  from match_items_sound[of "re_dup_num dec" t ms r] Some mr
  have s: "list_all2 item_ok (re_dup_num dec) ms" "concat ms @ r = t" by auto
  from s(1) obtain d1 w a d2 b where ms: "ms = [d1, w, a, d2, b]"
    and ok: "item_ok (One (\<lambda>c. c = 31532)) a" "item_ok (One (\<lambda>c. c = 35805)) b"
    by (auto simp: re_dup_num_def list_all2_Cons1)
  from ok have a: "a = [31532]" by (auto split: list.splits)
  show ?thesis
  proof (cases "d1 = d2")
    case True
    have "(d1 @ w) @ 31532 # (d2 @ b @ r) = t" using s(2) ms a by simp
    moreover have "fix_dup_num dec t = 31532 # (d2 @ b @ r)"
      using Some mr ms a True by (simp add: fix_dup_num_def)
    ultimately show ?thesis by blast
  next
    case False
    then show ?thesis using Some mr ms by (simp add: fix_dup_num_def)
  qed
qed

lemma clean_fix_dup_num: "clean t \<Longrightarrow> clean (fix_dup_num dec t)"
  using fix_dup_num_shape[of dec t] by (auto dest: clean_suffix)

lemma fix_dup_special_shape:
  "(match_items re_special t = None \<and> fix_dup_special t = t) \<or>
   (\<exists>p x. p \<noteq> [] \<and> p @ 29305 # x = t \<and> fix_dup_special t = 29305 # x)"
proof (cases "match_items re_special t")
  case None
  then show ?thesis by (simp add: fix_dup_special_def)
next
  case (Some mr)
  let ?r2 = "dropWhile isspace (drop 3 t)"
  from Some have c: "take 3 t = [29305, 21035, 31687]" "take 3 ?r2 = [29305, 21035, 31687]"
    by (auto simp: match_special Let_def split: if_splits)
  have "?r2 = 29305 # 21035 # 31687 # drop 3 ?r2"
    using c(2) by (metis append_take_drop_id append_Cons append_Nil)
  then obtain y where y: "?r2 = 29305 # y" by blast
  have "fix_dup_special t = spec_rule6 t" by (simp add: spec_rule6_eq)
  also have "\<dots> = ?r2" using Some
    by (auto simp: spec_rule6_def match_special Let_def split: if_splits)
  finally have f: "fix_dup_special t = 29305 # y"
    by (simp only: y)
  have "(take 3 t @ takeWhile isspace (drop 3 t)) @ ?r2 = t" by simp
  then have "(take 3 t @ takeWhile isspace (drop 3 t)) @ 29305 # y = t"
    by (simp only: y)
  moreover have "take 3 t @ takeWhile isspace (drop 3 t) \<noteq> []" using c(1) by auto
  ultimately show ?thesis using f by blast
qed

lemma clean_fix_dup_special: "clean t \<Longrightarrow> clean (fix_dup_special t)"
  using fix_dup_special_shape[of t] by (auto dest: clean_suffix)

lemma fix_number_shape:
  "(fix_number t = t \<and> (t = [] \<or> \<not> digit_hyphen (hd t))) \<or> (\<exists>x. fix_number t = 31532 # x)"
  unfolding spec_rule7_eq[symmetric] spec_rule7_def Let_def
  by (cases t) auto

lemma clean_fix_number: "clean t \<Longrightarrow> clean (fix_number t)"
proof -
  assume c: "clean t"
  let ?d = "takeWhile digit_hyphen t" and ?r = "dropWhile digit_hyphen t"
  have t: "t = ?d @ ?r" by simp
  have 1: "clean (31532 # t)" using c by (auto simp: clean_def forbidden_def isspace_def)
  have "set ?d \<subseteq> set t" "set ?r \<subseteq> set t" by (auto dest: set_takeWhileD set_dropWhileD)
  moreover have "?r \<noteq> [] \<Longrightarrow> last ?r = last t" by (metis last_appendR t)
  ultimately have 2: "clean ([31532] @ ?d @ [35805] @ ?r)"
    using c by (auto simp: clean_def forbidden_def isspace_def)
  show ?thesis
    unfolding spec_rule7_eq[symmetric] spec_rule7_def Let_def using c 1 2 by auto
qed

lemma rules_fixed_7B2C:
  assumes "\<not> dec 31532"
  shows "fix_dup_num dec (31532 # x) = 31532 # x"
    and "fix_dup_special (31532 # x) = 31532 # x"
    and "fix_number (31532 # x) = 31532 # x"
    and "match_items re_special (31532 # x) = None"
  using assms
  by (simp_all add: fix_dup_num_def re_dup_num_def fix_dup_special_def re_special_def
      fix_number_def digit_hyphen_def)

lemma rules_fixed_7279:
  assumes "\<not> dec 29305"
  shows "fix_dup_num dec (29305 # x) = 29305 # x"
    and "fix_number (29305 # x) = 29305 # x"
  using assms
  by (simp_all add: fix_dup_num_def re_dup_num_def fix_number_def digit_hyphen_def)

lemma fix_all_7B2C:
  assumes "\<not> dec 31532"
  shows "fix_all dec (31532 # x) = 31532 # x \<and> match_items re_special (31532 # x) = None"
  using rules_fixed_7B2C[of dec, OF assms] by (simp add: fix_all_def)

lemma fix_all_7279:
  assumes "\<not> dec 29305"
  shows "fix_all dec (29305 # x) = 29305 # x \<longleftrightarrow> match_items re_special (29305 # x) = None"
proof -
  let ?T = "29305 # x"
  have n: "fix_all dec ?T = fix_number (fix_dup_special ?T)"
    using rules_fixed_7279[of dec, OF assms] by (simp add: fix_all_def)
  show ?thesis
  proof (cases "match_items re_special ?T")
    case None
    then have "fix_dup_special ?T = ?T" by (simp add: fix_dup_special_def)
    then have "fix_all dec ?T = ?T"
      using n rules_fixed_7279[of dec, OF assms] by simp
    with None show ?thesis by simp
  next
    case (Some mr)
    then obtain q y where q: "q \<noteq> []" "q @ 29305 # y = ?T" "fix_dup_special ?T = 29305 # y"
      using fix_dup_special_shape[of ?T] by auto
    have "fix_all dec ?T = 29305 # y"
      using n q(3) rules_fixed_7279[of dec, OF assms] by simp
    moreover have "length (29305 # y) < length ?T"
    proof -
      have "length ?T = length q + length (29305 # y)" using q(2) by (metis length_append)
      then show ?thesis using q(1) by simp
    qed
    ultimately have "fix_all dec ?T \<noteq> ?T" by auto
    with Some show ?thesis by simp
  qed
qed

lemma fix_all_again:
  assumes d1: "\<not> dec 31532" and d2: "\<not> dec 29305"
  shows "fix_all dec (fix_all dec t) = fix_all dec t
     \<longleftrightarrow> match_items re_special (fix_all dec t) = None"
proof -
  define t1 where "t1 = fix_dup_num dec t"
  define t2 where "t2 = fix_dup_special t1"
  define T where "T = fix_all dec t"
  have T: "T = fix_number t2" by (simp add: T_def t2_def t1_def fix_all_def)
  have head: "T = 31532 # x \<Longrightarrow> fix_all dec T = T \<longleftrightarrow> match_items re_special T = None" for x
    using fix_all_7B2C[of dec, OF d1] by simp
  have head2: "T = 29305 # x \<Longrightarrow> fix_all dec T = T \<longleftrightarrow> match_items re_special T = None" for x
    using fix_all_7279[of dec, OF d2] by simp
  have goal: "fix_all dec T = T \<longleftrightarrow> match_items re_special T = None"
  proof -
    consider (a) x where "t1 = 31532 # x" | (b) "t1 = t"
      using fix_dup_num_shape[of dec t] unfolding t1_def by auto
    then show ?thesis
    proof cases
      case a
      then have "T = 31532 # x"
        using rules_fixed_7B2C[of dec, OF d1] by (simp add: T t2_def)
      then show ?thesis by (rule head)
    next
      case b
      consider (b1) x where "t2 = 29305 # x"
        | (b2) "match_items re_special t1 = None" "t2 = t1"
        using fix_dup_special_shape[of t1] unfolding t2_def by auto
      then show ?thesis
      proof cases
        case b1
        then have "T = 29305 # x" using rules_fixed_7279[of dec, OF d2] by (simp add: T)
        then show ?thesis by (rule head2)
      next
        case b2
        consider (c1) x where "fix_number t2 = 31532 # x" | (c2) "fix_number t2 = t2"
          using fix_number_shape[of t2] by auto
        then show ?thesis
        proof cases
          case c1
          then have "T = 31532 # x" by (simp add: T)
          then show ?thesis by (rule head)
        next
          case c2
          then have Tt: "T = t" using b b2 by (simp add: T)
          have "fix_all dec t = t" using Tt by (simp add: T_def)
          moreover have "match_items re_special t = None" using b2(1) b by simp
          ultimately show ?thesis using Tt by simp
        qed
      qed
    qed
  qed
  then show ?thesis by (simp add: T_def)
qed

text \<open>
  Claim C7, as stated, fails: the duplicate collapse of U+7279 U+522B U+7BC7 removes one
  repetition per application, so a title with three repetitions is changed again by a
  second application.
\<close>

theorem title_idempotent_counterexample:
  "title_of ascii_digit
       (title_of ascii_digit
          [29305, 21035, 31687, 32, 29305, 21035, 31687, 32, 29305, 21035, 31687] []) []
     \<noteq> title_of ascii_digit
          [29305, 21035, 31687, 32, 29305, 21035, 31687, 32, 29305, 21035, 31687] []"
  by (simp add: title_of_def fix_special_def sub_dot_def sub_trailing_space_def sub_forbidden_def
      forbidden_def isspace_def join_titles_def fix_dup_num_def re_dup_num_def
      fix_dup_special_def re_special_def fix_number_def digit_hyphen_def ascii_digit_def)

text \<open>
  Claim C7, amended: the title is a total function of the two input strings, and
  applying the computation to a computed title (alone, or as both short and long title)
  leaves it unchanged exactly when that title does not itself begin with the duplicate
  U+7279 U+522B U+7BC7, whitespace, U+7279 U+522B U+7BC7. The table of decimal digits is
  any table in which U+7B2C and U+7279 are no digits.
\<close>

theorem title_idempotent_iff:
  assumes "\<not> dec 31532" and "\<not> dec 29305"
  shows "(title_of dec (title_of dec s l) [] = title_of dec s l
           \<longleftrightarrow> match_items re_special (title_of dec s l) = None)
       \<and> title_of dec (title_of dec s l) (title_of dec s l) = title_of dec (title_of dec s l) []"
proof -
  define t0 where "t0 = join_titles (fix_special s) (fix_special l)"
  define T where "T = fix_all dec t0"
  have TT: "title_of dec s l = T" by (simp add: title_of_def fix_all_def T_def t0_def)
  have "clean t0" by (simp add: t0_def clean_join clean_fix_special)
  then have c: "clean T"
    by (simp add: T_def fix_all_def clean_fix_number clean_fix_dup_special clean_fix_dup_num)
  have e: "fix_special [] = []" using fix_special_clean[OF clean_Nil] .
  have 1: "title_of dec T [] = fix_all dec T"
    by (simp add: title_of_def fix_special_clean[OF c] e join_titles_def fix_all_def)
  have 2: "title_of dec T T = fix_all dec T"
    by (simp add: title_of_def fix_special_clean[OF c] join_titles_def fix_all_def)
  have "fix_all dec T = T \<longleftrightarrow> match_items re_special T = None"
    unfolding T_def by (rule fix_all_again[of dec, OF assms])
  then show ?thesis
    unfolding TT 1 2 by simp
qed

theorem title_idempotent_iff_witness:
  "\<not> ascii_digit 31532 \<and> \<not> ascii_digit 29305
   \<and> match_items re_special (title_of ascii_digit [49, 50] [65, 46]) = None
   \<and> title_of ascii_digit (title_of ascii_digit [49, 50] [65, 46]) []
       = title_of ascii_digit [49, 50] [65, 46]"
proof -
  have a: "\<not> ascii_digit 31532" and b: "\<not> ascii_digit 29305"
    by (simp_all add: ascii_digit_def)
  have t: "title_of ascii_digit [49, 50] [65, 46] = [31532, 49, 50, 35805, 32, 65, 183]"
    by (simp add: title_of_def fix_special_def sub_dot_def sub_trailing_space_def
        sub_forbidden_def forbidden_def isspace_def join_titles_def fix_dup_num_def
        re_dup_num_def fix_dup_special_def re_special_def fix_number_def digit_hyphen_def
        ascii_digit_def)
  have n: "match_items re_special (title_of ascii_digit [49, 50] [65, 46]) = None"
    by (simp add: t re_special_def)
  show ?thesis
    using a b n title_idempotent_iff[of ascii_digit "[49, 50]" "[65, 46]", OF a b]
    by simp
qed

section \<open>Properties of the retry decorator\<close>

lemma Retrying_loop_inv:
  assumes run: "Retrying_loop kw fn st n w = Some y"
  shows "(\<forall>w r w1. I w \<longrightarrow> fn w = (r, w1) \<longrightarrow> I w1) \<longrightarrow>
         (\<forall>w d. I w \<longrightarrow> I (w\<lparr>clock := d\<rparr>)) \<longrightarrow>
         I w \<longrightarrow> (\<exists>w0. I w0 \<and> fn w0 = y)"
proof (rule Retrying_loop.raw_induct[where P = "\<lambda>kw fn st n w y.
         (\<forall>w r w1. I w \<longrightarrow> fn w = (r, w1) \<longrightarrow> I w1) \<longrightarrow>
         (\<forall>w d. I w \<longrightarrow> I (w\<lparr>clock := d\<rparr>)) \<longrightarrow>
         I w \<longrightarrow> (\<exists>w0. I w0 \<and> fn w0 = y)", OF _ run])
  fix loop :: "retry_kwargs \<Rightarrow> (world \<Rightarrow> (exn + 'a) \<times> world) \<Rightarrow> int \<Rightarrow> nat \<Rightarrow> world
       \<Rightarrow> ((exn + 'a) \<times> world) option"
  fix kw fn st n w y
  assume IH: "\<And>kw fn st n w y. loop kw fn st n w = Some y \<Longrightarrow>
         (\<forall>w r w1. I w \<longrightarrow> fn w = (r, w1) \<longrightarrow> I w1) \<longrightarrow>
         (\<forall>w d. I w \<longrightarrow> I (w\<lparr>clock := d\<rparr>)) \<longrightarrow>
         I w \<longrightarrow> (\<exists>w0. I w0 \<and> fn w0 = y)"
  assume eq: "(case fn w of
      (Inl e, w1) \<Rightarrow>
        if should_stop kw n (clock w1 - st)
        then Some (Inl e, w1)
        else loop kw fn st (Suc n) (w1\<lparr>clock := clock w1 + wait_ms kw n\<rparr>)
      | (Inr v, w1) \<Rightarrow> Some (Inr v, w1)) = Some y"
  show "(\<forall>w r w1. I w \<longrightarrow> fn w = (r, w1) \<longrightarrow> I w1) \<longrightarrow>
         (\<forall>w d. I w \<longrightarrow> I (w\<lparr>clock := d\<rparr>)) \<longrightarrow>
         I w \<longrightarrow> (\<exists>w0. I w0 \<and> fn w0 = y)"
  proof (intro impI)
    assume step: "\<forall>w r w1. I w \<longrightarrow> fn w = (r, w1) \<longrightarrow> I w1"
      and sleep: "\<forall>w d. I w \<longrightarrow> I (w\<lparr>clock := d\<rparr>)" and iw: "I w"
    obtain a w1 where f: "fn w = (a, w1)" by (cases "fn w")
    have i1: "I w1" using step iw f by blast
    show "\<exists>w0. I w0 \<and> fn w0 = y"
    proof (cases a)
      case (Inr v)
      with f eq have "y = (Inr v, w1)" by simp
      with f Inr iw show ?thesis by auto
    next
      case (Inl e)
      show ?thesis
      proof (cases "should_stop kw n (clock w1 - st)")
        case True
        with f Inl eq have "y = (Inl e, w1)" by simp
        with f Inl iw show ?thesis by auto
      next
        case False
        with f Inl eq
        have "loop kw fn st (Suc n) (w1\<lparr>clock := clock w1 + wait_ms kw n\<rparr>) = Some y"
          by simp
        moreover have "I (w1\<lparr>clock := clock w1 + wait_ms kw n\<rparr>)"
          using sleep i1 by blast
        ultimately show ?thesis
          using IH step sleep by blast
      qed
    qed
  qed
qed

lemma Retrying_call_inv:
  assumes "Retrying_call kw fn w = Some (r, w')"
    and "\<And>w r w1. I w \<Longrightarrow> fn w = (r, w1) \<Longrightarrow> I w1"
    and "\<And>w d. I w \<Longrightarrow> I (w\<lparr>clock := d\<rparr>)"
    and "I w"
  shows "I w' \<and> (\<exists>w0. I w0 \<and> fn w0 = (r, w'))"
proof -
  from assms(1) have "Retrying_loop kw fn (clock w) 1 w = Some (r, w')"
    by (simp add: Retrying_call_def)
  then have "\<exists>w0. I w0 \<and> fn w0 = (r, w')"
    using assms(2,3,4) Retrying_loop_inv[where I = I and fn = fn and y = "(r, w')"] by blast
  then obtain w0 where "I w0" "fn w0 = (r, w')" by blast
  with assms(2) show ?thesis by blast
qed

lemma clock_same [simp]: "w\<lparr>clock := clock w\<rparr> = (w :: world)"
  by simp

lemma Retrying_loop_count:
  assumes "stop_max_attempt_number kw = Some m" and "stop_max_delay kw = None"
    and "wait_exponential_multiplier kw = None"
  shows "n + k = m \<Longrightarrow> 0 < n \<Longrightarrow> Retrying_loop kw fn st n w = Some (attempts k fn w)"
proof (induction k arbitrary: n w)
  case 0
  then have s: "\<And>d. should_stop kw n d" using assms by (simp add: should_stop_def)
  show ?case
    by (subst Retrying_loop.simps) (simp add: s split: prod.splits sum.splits)
next
  case (Suc k)
  then have s: "\<And>d. \<not> should_stop kw n d" using assms by (simp add: should_stop_def)
  have w: "wait_ms kw n = 0" using assms by (simp add: wait_ms_def)
  have ih: "\<And>w. Retrying_loop kw fn st (Suc n) w = Some (attempts k fn w)"
    using Suc.IH[of "Suc n"] Suc.prems by simp
  show ?case
    by (subst Retrying_loop.simps) (simp add: s w ih split: prod.splits sum.splits)
qed

lemma Retrying_call_five:
  "\<not> is_network site \<Longrightarrow> Retrying_call (site_kwargs env site) fn w = Some (attempts 4 fn w)"
  unfolding Retrying_call_def
  by (rule Retrying_loop_count[where m = 5])
     (cases site; simp add: site_kwargs_def is_network_def)+

section \<open>The skip check and the retry policies\<close>

lemma demo_title: "title_of ascii_digit [49] [] = [31532, 49, 35805]"
  by (simp add: title_of_def fix_special_def sub_dot_def sub_trailing_space_def
      sub_forbidden_def forbidden_def isspace_def join_titles_def fix_dup_num_def
      re_dup_num_def fix_dup_special_def re_special_def fix_number_def digit_hyphen_def
      ascii_digit_def)

lemma demo_episode_eq:
  "demo_episode method =
     \<lparr>ep_id = 7, available = True, ep_ord = 12, comic_name = [66], imgs_token = None,
      author = [67], title = [31532, 49, 35805], save_path = [100], save_method = method,
      epi_path_pdf = [100, 47, 31532, 49, 35805, 46, 112, 100, 102],
      epi_path_folder = [100, 47, 31532, 49, 35805],
      epi_path_7z = [100, 47, 31532, 49, 35805, 46, 55, 122],
      epi_path =
        (if method = METHOD_PDF then Some [100, 47, 31532, 49, 35805, 46, 112, 100, 102]
         else if method = METHOD_FOLDER then Some [100, 47, 31532, 49, 35805]
         else if method = METHOD_7Z then Some [100, 47, 31532, 49, 35805, 46, 55, 122]
         else None)\<rparr>"
  by (simp add: demo_episode_def Episode_init_def demo_title path_join_def Let_def)

text \<open>
  Claim C1, as stated, fails: \<open>isDownloaded\<close> looks at the paths of all three
  formats. With PDF configured and only the image folder of the episode on disk, the
  episode is reported as downloaded although its canonical path does not exist.
\<close>

theorem isDownloaded_other_format_counterexample:
  "isDownloaded (empty_world\<lparr>files := [([100, 47, 31532, 49, 35805], Dir [])]\<rparr>)
       (demo_episode METHOD_PDF)
   \<and> epi_path (demo_episode METHOD_PDF) = Some [100, 47, 31532, 49, 35805, 46, 112, 100, 102]
   \<and> \<not> path_exists (empty_world\<lparr>files := [([100, 47, 31532, 49, 35805], Dir [])]\<rparr>)
          [100, 47, 31532, 49, 35805, 46, 112, 100, 102]"
  by (simp add: demo_episode_eq isDownloaded_def path_exists_def empty_world_def)

lemma exponential_sleep_eq:
  "max 0 (exponential_sleep m n) = max 0 (min (m * 2 ^ n) MAX_WAIT)"
  by (simp add: exponential_sleep_def Let_def MAX_WAIT_def)

text \<open>
  The table of keyword arguments: the three network call sites stop on the elapsed time alone (the cap being
  \<open>MAX_RETRY_LARGE\<close> for the page GET and \<open>MAX_RETRY_SMALL\<close> for the two metadata
  calls) and wait \<open>RETRY_WAIT_EX * 2 ^ n\<close> ms after attempt \<open>n\<close>, capped by the
  library's maximum, so the wait doubles below the cap; every disk call site stops on
  the attempt count alone, at 5, never waits, and is the same as up to five attempts
  in a row.
\<close>

lemma site_policy:
  "(is_network site \<longrightarrow>
      (should_stop (site_kwargs env site) n d \<longleftrightarrow>
         d \<ge> (if site = SitePageGet then MAX_RETRY_LARGE env else MAX_RETRY_SMALL env))
      \<and> wait_ms (site_kwargs env site) n = max 0 (min (RETRY_WAIT_EX env * 2 ^ n) MAX_WAIT)
      \<and> (0 < RETRY_WAIT_EX env \<and> RETRY_WAIT_EX env * 2 ^ Suc n \<le> MAX_WAIT \<longrightarrow>
           wait_ms (site_kwargs env site) (Suc n) = 2 * wait_ms (site_kwargs env site) n))
   \<and> (\<not> is_network site \<longrightarrow>
      (should_stop (site_kwargs env site) n d \<longleftrightarrow> n \<ge> 5)
      \<and> wait_ms (site_kwargs env site) n = 0
      \<and> Retrying_call (site_kwargs env site) fn w = Some (attempts 4 fn w))"
proof (cases "is_network site")
  case True
  then have kw: "stop_max_attempt_number (site_kwargs env site) = None"
    "stop_max_delay (site_kwargs env site) =
       Some (if site = SitePageGet then MAX_RETRY_LARGE env else MAX_RETRY_SMALL env)"
    "wait_exponential_multiplier (site_kwargs env site) = Some (RETRY_WAIT_EX env)"
    by (auto simp: is_network_def site_kwargs_def)
  have w: "\<And>k. wait_ms (site_kwargs env site) k = max 0 (min (RETRY_WAIT_EX env * 2 ^ k) MAX_WAIT)"
    by (simp add: wait_ms_def kw exponential_sleep_eq)
  have g: "0 < RETRY_WAIT_EX env \<and> RETRY_WAIT_EX env * 2 ^ Suc n \<le> MAX_WAIT \<longrightarrow>
           wait_ms (site_kwargs env site) (Suc n) = 2 * wait_ms (site_kwargs env site) n"
  proof
    assume a: "0 < RETRY_WAIT_EX env \<and> RETRY_WAIT_EX env * 2 ^ Suc n \<le> MAX_WAIT"
    then have 1: "0 < RETRY_WAIT_EX env * 2 ^ n" by simp
    have 2: "RETRY_WAIT_EX env * 2 ^ Suc n = 2 * (RETRY_WAIT_EX env * 2 ^ n)" by simp
    from a 1 2 have 3: "RETRY_WAIT_EX env * 2 ^ n \<le> MAX_WAIT" by linarith
    show "wait_ms (site_kwargs env site) (Suc n) = 2 * wait_ms (site_kwargs env site) n"
      unfolding w using a 1 3 by (simp add: min_def max_def)
  qed
  from True kw w g show ?thesis by (simp add: should_stop_def)
next
  case False
  then have kw: "stop_max_attempt_number (site_kwargs env site) = Some 5"
    "stop_max_delay (site_kwargs env site) = None"
    "wait_exponential_multiplier (site_kwargs env site) = None"
    by (cases site; simp add: is_network_def site_kwargs_def)+
  from False kw Retrying_call_five[OF False] show ?thesis
    by (simp add: should_stop_def wait_ms_def)
qed

section \<open>download after a failed init_imgsList\<close>

lemma init_imgsList_False:
  "init_imgsList env e w = Some (Inr False, e1, w1) \<Longrightarrow> e1 = e"
  by (auto simp: init_imgsList_def split: option.splits prod.splits sum.splits if_splits)

lemma offline_index:
  "Retrying_call (site_kwargs offline_env SiteImageIndex)
       (fetch_image_index offline_env (demo_episode METHOD_PDF)) empty_world
     = Some (Inl RequestException, empty_world\<lparr>clock := 6800, tick := 4\<rparr>)"
  by (simp add: Retrying_call_def Retrying_loop.simps fetch_image_index_def send_def
      offline_env_def demo_env_def empty_world_def site_kwargs_def should_stop_def wait_ms_def
      exponential_sleep_def MAX_WAIT_def Let_def)

text \<open>
  Claim C2 against the code: when \<open>init_imgsList\<close> has given up and returned
  \<open>False\<close>, \<open>download\<close> emits the sentinel and then, instead of returning, starts
  the loop over \<open>self.imgs_token\<close>, which is still \<open>None\<close>: a \<open>TypeError\<close> that
  nothing catches.
\<close>

theorem download_after_failed_metadata:
  assumes "init_imgsList env e w = Some (Inr False, e1, w1)" and "imgs_token e = None"
  shows "download env e taskID w
     = Some (Inl TypeError, (emit (RateProgress taskID (- 1) None) w1)\<lparr>imgs_path := []\<rparr>)"
proof -
  have "e1 = e" using assms(1) by (rule init_imgsList_False)
  then show ?thesis using assms by (simp add: download_def Let_def)
qed

theorem download_after_failed_metadata_witness:
  "init_imgsList offline_env (demo_episode METHOD_PDF) empty_world
     = Some (Inr False, demo_episode METHOD_PDF,
         \<lparr>files = [], clock = 6800, tick = 4, imgs_path = [],
          trace = [MessageBox ImageListFailed]\<rparr>)
   \<and> imgs_token (demo_episode METHOD_PDF) = None
   \<and> download offline_env (demo_episode METHOD_PDF) [116] empty_world
     = Some (Inl TypeError,
         \<lparr>files = [], clock = 6800, tick = 4, imgs_path = [],
          trace = [MessageBox ImageListFailed, RateProgress [116] (- 1) None]\<rparr>)"
proof -
  have i: "init_imgsList offline_env (demo_episode METHOD_PDF) empty_world
     = Some (Inr False, demo_episode METHOD_PDF,
         \<lparr>files = [], clock = 6800, tick = 4, imgs_path = [],
          trace = [MessageBox ImageListFailed]\<rparr>)"
    unfolding init_imgsList_def offline_index
    by (simp add: is_RequestException_def emit_def empty_world_def)
  have t: "imgs_token (demo_episode METHOD_PDF) = None"
    by (simp add: demo_episode_eq)
  show ?thesis
    using i t download_after_failed_metadata[OF i t, of "[116]"]
    by (simp add: emit_def)
qed

section \<open>What the methods leave untouched\<close>

lemma trace_send [simp]: "trace (snd (send env rq w)) = trace w"
  by (simp add: send_def split: prod.splits)

lemma trace_write_file [simp]: "trace (snd (write_file env p c w)) = trace w"
  by (simp add: write_file_def Let_def split: option.splits node.splits fault.splits)

lemma trace_os_remove [simp]: "trace (snd (os_remove env p w)) = trace w"
  by (simp add: os_remove_def Let_def split: option.splits node.splits fault.splits)

lemma trace_fetch_image_index [simp]: "trace (snd (fetch_image_index env e w)) = trace w"
proof -
  obtain rep w1 where s: "send env (GetImageIndex (ep_id e)) w = (rep, w1)"
    by (cases "send env (GetImageIndex (ep_id e)) w")
  then have "trace w1 = trace w" using trace_send[of env "GetImageIndex (ep_id e)" w] by simp
  with s show ?thesis by (simp add: fetch_image_index_def split: option.splits)
qed

lemma trace_fetch_image_token [simp]: "trace (snd (fetch_image_token env us w)) = trace w"
proof -
  obtain rep w1 where s: "send env (ImageToken us) w = (rep, w1)"
    by (cases "send env (ImageToken us) w")
  then have "trace w1 = trace w" using trace_send[of env "ImageToken us" w] by simp
  with s show ?thesis by (simp add: fetch_image_token_def split: option.splits)
qed

lemma trace_fetch_img [simp]: "trace (snd (fetch_img env u w)) = trace w"
proof -
  obtain rep w1 where s: "send env (GetImage u) w = (rep, w1)"
    by (cases "send env (GetImage u) w")
  then have "trace w1 = trace w" using trace_send[of env "GetImage u" w] by simp
  with s show ?thesis by (simp add: fetch_img_def split: option.splits)
qed

lemma trace_clear_loop [simp]: "trace (snd (clear_loop env k w)) = trace w"
proof (induction k arbitrary: w)
  case 0
  then show ?case by simp
next
  case (Suc k)
  show ?case
  proof (cases "k < length (imgs_path w)")
    case False
    then show ?thesis by simp
  next
    case True
    obtain r w1 where o: "os_remove env (imgs_path w ! k) w = (r, w1)"
      by (cases "os_remove env (imgs_path w ! k) w")
    then have t: "trace w1 = trace w" using trace_os_remove[of env "imgs_path w ! k" w] by simp
    show ?thesis
      using True o t Suc.IH[of "w1\<lparr>imgs_path := remove1 (imgs_path w ! k) (imgs_path w1)\<rparr>"]
      by (simp add: Let_def split: sum.splits)
  qed
qed

lemma trace_clear_attempt [simp]: "trace (snd (clear_attempt env w)) = trace w"
  by (simp add: clear_attempt_def)

lemma Retrying_call_trace:
  assumes "Retrying_call kw fn w = Some (r, w')" and "\<And>w. trace (snd (fn w)) = trace w"
  shows "trace w' = trace w"
proof -
  have step: "\<And>v r v1. trace v = trace w \<Longrightarrow> fn v = (r, v1) \<Longrightarrow> trace v1 = trace w"
    using assms(2) by (metis snd_conv)
  have "trace w' = trace w \<and> (\<exists>w0. trace w0 = trace w \<and> fn w0 = (r, w'))"
  proof (rule Retrying_call_inv[where I = "\<lambda>v. trace v = trace w", OF assms(1)])
    show "\<And>w0 r w1. trace w0 = trace w \<Longrightarrow> fn w0 = (r, w1) \<Longrightarrow> trace w1 = trace w"
      by (rule step)
    show "\<And>w0 d. trace w0 = trace w \<Longrightarrow> trace (w0\<lparr>clock := d\<rparr>) = trace w"
      by simp
    show "trace w = trace w" by simp
  qed
  then show ?thesis by blast
qed

lemma assemblies_emit_other [simp]:
  "assemblies (emit (MessageBox m) w) = assemblies w"
  "assemblies (emit (RateProgress t r p) w) = assemblies w"
  by (simp_all add: assemblies_def emit_def)

lemma assemblies_trace: "trace w' = trace w \<Longrightarrow> assemblies w' = assemblies w"
  by (simp add: assemblies_def)

lemma assemblies_imgs_path [simp]: "assemblies (w\<lparr>imgs_path := x\<rparr>) = assemblies w"
  by (simp add: assemblies_def)

lemma init_imgsList_episode:
  "init_imgsList env e w = Some (r, e1, w1) \<Longrightarrow> e1 = e \<or> (\<exists>t. e1 = e\<lparr>imgs_token := Some t\<rparr>)"
  by (auto simp: init_imgsList_def split: option.splits prod.splits sum.splits if_splits)

lemma assemblies_init_imgsList:
  assumes "init_imgsList env e w = Some (r, e1, w1)"
  shows "assemblies w1 = assemblies w"
proof -
  let ?kw1 = "site_kwargs env SiteImageIndex" and ?kw2 = "site_kwargs env SiteImageToken"
  obtain y where 1: "Retrying_call ?kw1 (fetch_image_index env e) w = Some y"
    using assms
    by (cases "Retrying_call ?kw1 (fetch_image_index env e) w") (simp_all add: init_imgsList_def)
  obtain a v where y: "y = (a, v)" by (cases y)
  have "trace v = trace w"
    using Retrying_call_trace[of ?kw1 "fetch_image_index env e" w a v] 1 y by simp
  then have tv: "assemblies v = assemblies w" by (rule assemblies_trace)
  show ?thesis
  proof (cases a)
    case (Inl ex)
    have "(if is_RequestException ex
           then Some (Inr False, e, emit (MessageBox ImageListFailed) v)
           else Some (Inl ex, e, v)) = Some (r, e1, w1)"
      using assms by (simp add: init_imgsList_def 1 y Inl)
    then have "w1 = emit (MessageBox ImageListFailed) v \<or> w1 = v"
      by (cases "is_RequestException ex") simp_all
    with tv show ?thesis by auto
  next
    case (Inr imgs)
    show ?thesis
    proof (cases "those imgs")
      case None
      then have "w1 = v" using assms by (simp add: init_imgsList_def 1 y Inr)
      with tv show ?thesis by simp
    next
      case (Some us)
      have d: "(case Retrying_call ?kw2 (fetch_image_token env us) v of
                 None \<Rightarrow> None
               | Some (Inl ex, w2) \<Rightarrow>
                   if is_RequestException ex
                   then Some (Inr False, e, emit (MessageBox TokenFailed) w2)
                   else Some (Inl ex, e, w2)
               | Some (Inr toks, w2) \<Rightarrow> Some (Inr True, e\<lparr>imgs_token := Some toks\<rparr>, w2))
             = Some (r, e1, w1)"
        using assms by (simp add: init_imgsList_def 1 y Inr Some)
      then obtain y2 where 2: "Retrying_call ?kw2 (fetch_image_token env us) v = Some y2"
        by (cases "Retrying_call ?kw2 (fetch_image_token env us) v") simp_all
      obtain b v2 where y2: "y2 = (b, v2)" by (cases y2)
      have "trace v2 = trace v"
        using Retrying_call_trace[of ?kw2 "fetch_image_token env us" v b v2] 2 y2 by simp
      then have tv2: "assemblies v2 = assemblies v" by (rule assemblies_trace)
      have "w1 = emit (MessageBox TokenFailed) v2 \<or> w1 = v2"
        using d unfolding 2 y2 by (cases b) (auto split: if_splits)
      with tv tv2 show ?thesis by auto
    qed
  qed
qed

lemma assemblies_downloadImg:
  assumes "downloadImg env e i u w = Some (r, w1)"
  shows "assemblies w1 = assemblies w"
proof -
  let ?kw1 = "site_kwargs env SitePageGet" and ?kw2 = "site_kwargs env SiteTempWrite"
  obtain y where 1: "Retrying_call ?kw1 (fetch_img env u) w = Some y"
    using assms
    by (cases "Retrying_call ?kw1 (fetch_img env u) w") (simp_all add: downloadImg_def)
  obtain a v where y: "y = (a, v)" by (cases y)
  have "trace v = trace w"
    using Retrying_call_trace[of ?kw1 "fetch_img env u" w a v] 1 y by simp
  then have tv: "assemblies v = assemblies w" by (rule assemblies_trace)
  show ?thesis
  proof (cases a)
    case (Inl ex)
    have "(if is_RequestException ex
           then Some (Inr None, emit (MessageBox DownloadFailed) v)
           else Some (Inl ex, v)) = Some (r, w1)"
      using assms by (simp add: downloadImg_def 1 y Inl)
    then have "w1 = emit (MessageBox DownloadFailed) v \<or> w1 = v"
      by (cases "is_RequestException ex") simp_all
    with tv show ?thesis by auto
  next
    case (Inr img)
    let ?wr = "write_file env (temp_path e i) (Raw img)"
    have d: "(case Retrying_call ?kw2 ?wr v of
               None \<Rightarrow> None
             | Some (Inl ex, w2) \<Rightarrow>
                 if ex = OSError
                 then Some (Inr None, emit (MessageBox SaveImgFailed) w2)
                 else Some (Inl ex, w2)
             | Some (Inr u, w2) \<Rightarrow> Some (Inr (Some (temp_path e i)), w2))
           = Some (r, w1)"
      using assms by (simp add: downloadImg_def 1 y Inr)
    then obtain y2 where 2: "Retrying_call ?kw2 ?wr v = Some y2"
      by (cases "Retrying_call ?kw2 ?wr v") simp_all
    obtain b v2 where y2: "y2 = (b, v2)" by (cases y2)
    have "trace v2 = trace v"
      using Retrying_call_trace[of ?kw2 ?wr v b v2] 2 y2 by simp
    then have tv2: "assemblies v2 = assemblies v" by (rule assemblies_trace)
    have "w1 = emit (MessageBox SaveImgFailed) v2 \<or> w1 = v2"
      using d unfolding 2 y2 by (cases b) (auto split: if_splits)
    with tv tv2 show ?thesis by auto
  qed
qed

lemma assemblies_clearAfterSave:
  assumes "clearAfterSave env w = Some (r, w1)"
  shows "assemblies w1 = assemblies w"
proof -
  obtain a v where 1: "Retrying_call (site_kwargs env SiteClear) (clear_attempt env) w = Some (a, v)"
    using assms by (auto simp: clearAfterSave_def split: option.splits)
  have "trace v = trace w"
    using Retrying_call_trace[OF 1] by simp
  then have "assemblies v = assemblies w" by (rule assemblies_trace)
  with assms 1 show ?thesis
    by (auto simp: clearAfterSave_def split: if_splits sum.splits)
qed

lemma assemblies_download_pages:
  "download_pages env e tid n toks i w = Some (r, w1) \<Longrightarrow> assemblies w1 = assemblies w"
proof (induction toks arbitrary: i w)
  case Nil
  then show ?case by simp
next
  case (Cons img rest)
  let ?u = "fst img @ [63, 116, 111, 107, 101, 110, 61] @ snd img"
  obtain a v where d: "downloadImg env e i ?u w = Some (a, v)"
    using Cons.prems by (auto split: option.splits)
  have av: "assemblies v = assemblies w" using assemblies_downloadImg[OF d] .
  show ?case
  proof (cases a)
    case (Inl ex)
    with Cons.prems d av show ?thesis by simp
  next
    case (Inr po)
    show ?thesis
    proof (cases po)
      case None
      with Cons.prems d Inr obtain b v2 where
        c: "clearAfterSave env (emit (RateProgress tid (- 1) None) v) = Some (b, v2)"
        by (auto split: option.splits)
      have "assemblies v2 = assemblies v" using assemblies_clearAfterSave[OF c] by simp
      with Cons.prems d Inr None c av show ?thesis by (auto split: sum.splits)
    next
      case (Some p)
      show ?thesis
      proof (cases "epi_path e")
        case None
        with Cons.prems d Inr Some av show ?thesis by (auto simp: Let_def)
      next
        case (Some q)
        with Cons.prems d Inr \<open>po = Some p\<close>
        have "download_pages env e tid n rest (Suc i)
            (emit (RateProgress tid (rate_of env i n) (Some q))
               (v\<lparr>imgs_path := imgs_path v @ [p]\<rparr>)) = Some (r, w1)"
          by (simp add: Let_def)
        from Cons.IH[OF this] av show ?thesis by simp
      qed
    qed
  qed
qed

section \<open>An unknown save method\<close>

lemma save_method_Episode_init [simp]:
  "save_method (Episode_init dec ep info method) = method"
  by (simp add: Episode_init_def Let_def)

lemma dispatch_save_unknown:
  assumes "save_method e \<noteq> METHOD_PDF" "save_method e \<noteq> METHOD_FOLDER"
    "save_method e \<noteq> METHOD_7Z"
  shows "dispatch_save env e imgs w = Some (Inr (), w)"
  using assms by (simp add: dispatch_save_def)

lemma download_assemblies_unknown:
  assumes m: "save_method e \<noteq> METHOD_PDF" "save_method e \<noteq> METHOD_FOLDER"
      "save_method e \<noteq> METHOD_7Z"
    and D: "download env e taskID w = Some (r, w')"
  shows "assemblies w' = assemblies w"
proof -
  obtain y where I: "init_imgsList env e w = Some y"
    using D by (cases "init_imgsList env e w") (simp_all add: download_def)
  obtain a e1 w1 where y: "y = (a, e1, w1)" by (cases y)
  have a1: "assemblies w1 = assemblies w"
    using assemblies_init_imgsList[of env e w a e1 w1] I y by simp
  have sm: "save_method e1 = save_method e"
    using init_imgsList_episode[of env e w a e1 w1] I y by auto
  show ?thesis
  proof (cases a)
    case (Inl ex)
    then have "w' = w1" using D by (simp add: download_def I y)
    with a1 show ?thesis by simp
  next
    case (Inr ok)
    define w3 where "w3 = (if \<not> ok then emit (RateProgress taskID (- 1) None) w1 else w1)
        \<lparr>imgs_path := []\<rparr>"
    have a3: "assemblies w3 = assemblies w" using a1 by (simp add: w3_def)
    show ?thesis
    proof (cases "imgs_token e1")
      case None
      then have "w' = w3" using D by (simp add: download_def I y Inr Let_def w3_def)
      with a3 show ?thesis by simp
    next
      case (Some toks)
      have D2: "(case download_pages env e1 taskID (length toks) toks (Suc 0) w3 of
                  None \<Rightarrow> None
                | Some (Inl ex, w4) \<Rightarrow> Some (Inl ex, w4)
                | Some (Inr False, w4) \<Rightarrow> Some (Inr (), w4)
                | Some (Inr True, w4) \<Rightarrow>
                    (case open_images env w4 (imgs_path w4) of
                       Inl ex \<Rightarrow> Some (Inl ex, w4)
                     | Inr imgs \<Rightarrow>
                         (case dispatch_save env e1 (map to_rgb imgs) w4 of
                            None \<Rightarrow> None
                          | Some (Inl ex, w5) \<Rightarrow> Some (Inl ex, w5)
                          | Some (Inr u, w5) \<Rightarrow> clearAfterSave env w5))) = Some (r, w')"
        using D by (simp add: download_def I y Inr Let_def w3_def Some)
      then obtain y2 where P: "download_pages env e1 taskID (length toks) toks (Suc 0) w3 = Some y2"
        by (cases "download_pages env e1 taskID (length toks) toks (Suc 0) w3") simp_all
      obtain b w4 where y2: "y2 = (b, w4)" by (cases y2)
      have a4: "assemblies w4 = assemblies w"
        using assemblies_download_pages[of env e1 taskID "length toks" toks "Suc 0" w3 b w4] P y2 a3
        by simp
      show ?thesis
      proof (cases b)
        case (Inl ex)
        then have "w' = w4" using D2 by (simp add: P y2)
        with a4 show ?thesis by simp
      next
        case (Inr go)
        show ?thesis
        proof (cases go)
          case False
          then have "w' = w4" using D2 by (simp add: P y2 Inr)
          with a4 show ?thesis by simp
        next
          case True
          show ?thesis
          proof (cases "open_images env w4 (imgs_path w4)")
            case (Inl ex)
            then have "w' = w4" using D2 by (simp add: P y2 \<open>b = Inr go\<close> True)
            with a4 show ?thesis by simp
          next
            case (Inr imgs)
            have "dispatch_save env e1 (map to_rgb imgs) w4 = Some (Inr (), w4)"
              using m sm by (simp add: dispatch_save_unknown)
            then have "clearAfterSave env w4 = Some (r, w')"
              using D2 by (simp add: P y2 \<open>b = Inr go\<close> True Inr)
            from assemblies_clearAfterSave[OF this] a4 show ?thesis by simp
          qed
        qed
      qed
    qed
  qed
qed

text \<open>
  Claim C10: for a save method other than the three known ones the constructor leaves
  \<open>epi_path\<close> unassigned; when the first page has been downloaded, \<open>download\<close> ends
  with an \<open>AttributeError\<close> at the progress report of that page; and no run of
  \<open>download\<close> enters a save method.
\<close>

theorem unknown_save_method:
  assumes "method \<noteq> METHOD_PDF" and "method \<noteq> METHOD_FOLDER" and "method \<noteq> METHOD_7Z"
    and "e = Episode_init dec ep info method"
  shows "epi_path e = None
     \<and> (init_imgsList env e w = Some (Inr ok, e1, w1) \<longrightarrow>
        imgs_token e1 = Some (img # rest) \<longrightarrow>
        downloadImg env e1 1 (fst img @ [63, 116, 111, 107, 101, 110, 61] @ snd img)
            ((if \<not> ok then emit (RateProgress taskID (- 1) None) w1 else w1)\<lparr>imgs_path := []\<rparr>)
          = Some (Inr (Some p), w2) \<longrightarrow>
        download env e taskID w
          = Some (Inl AttributeError, w2\<lparr>imgs_path := imgs_path w2 @ [p]\<rparr>))
     \<and> (download env e taskID w = Some (r, w') \<longrightarrow> assemblies w' = assemblies w)"
proof -
  have 1: "epi_path e = None" using assms by (simp add: Episode_init_def Let_def)
  have 2: "download env e taskID w
          = Some (Inl AttributeError, w2\<lparr>imgs_path := imgs_path w2 @ [p]\<rparr>)"
    if i: "init_imgsList env e w = Some (Inr ok, e1, w1)"
      and t: "imgs_token e1 = Some (img # rest)"
      and d: "downloadImg env e1 1 (fst img @ [63, 116, 111, 107, 101, 110, 61] @ snd img)
            ((if \<not> ok then emit (RateProgress taskID (- 1) None) w1 else w1)\<lparr>imgs_path := []\<rparr>)
          = Some (Inr (Some p), w2)"
  proof -
    have "epi_path e1 = None" using init_imgsList_episode[OF i] 1 by auto
    then show ?thesis
      using i t d by (simp add: download_def Let_def)
  qed
  have 3: "assemblies w' = assemblies w" if "download env e taskID w = Some (r, w')"
    using download_assemblies_unknown[OF _ _ _ that] assms by simp
  from 1 2 3 show ?thesis by blast
qed

lemma demo_init:
  "init_imgsList demo_env (demo_episode m) empty_world
     = Some (Inr True,
         (demo_episode m)\<lparr>imgs_token := Some [([120, 47, 97], [116]), ([120, 47, 98], [116])]\<rparr>,
         empty_world\<lparr>clock := 20, tick := 2\<rparr>)"
  by (simp add: init_imgsList_def Retrying_call_def Retrying_loop.simps fetch_image_index_def
      fetch_image_token_def send_def demo_env_def demo_net_def plain_response_def
      empty_world_def site_kwargs_def)

lemma demo_downloadImg_1:
  "downloadImg demo_env
       ((demo_episode m)\<lparr>imgs_token := Some [([120, 47, 97], [116]), ([120, 47, 98], [116])]\<rparr>)
       1 [120, 47, 97, 63, 116, 111, 107, 101, 110, 61, 116]
       (empty_world\<lparr>clock := 20, tick := 2\<rparr>)
     = Some (Inr (Some [100, 47, 49, 50, 95, 49, 46, 106, 112, 103]),
         empty_world\<lparr>clock := 30, tick := 4,
           files := [([100, 47, 49, 50, 95, 49, 46, 106, 112, 103],
                      File (Raw [120, 47, 97, 63, 116, 111, 107, 101, 110, 61, 116]))]\<rparr>)"
  by (simp add: downloadImg_def Retrying_call_def Retrying_loop.simps fetch_img_def
      send_def demo_env_def demo_net_def plain_response_def write_file_def put_def
      empty_world_def site_kwargs_def temp_path_def demo_episode_eq path_join_def str_int_def
      Let_def)

theorem unknown_save_method_witness:
  "epi_path (demo_episode []) = None
   \<and> download demo_env (demo_episode []) [116] empty_world
     = Some (Inl AttributeError,
         \<lparr>files = [([100, 47, 49, 50, 95, 49, 46, 106, 112, 103],
                     File (Raw [120, 47, 97, 63, 116, 111, 107, 101, 110, 61, 116]))],
          clock = 30, tick = 4,
          imgs_path = [[100, 47, 49, 50, 95, 49, 46, 106, 112, 103]], trace = []\<rparr>)"
proof -
  have m: "[] \<noteq> METHOD_PDF" "[] \<noteq> METHOD_FOLDER" "[] \<noteq> METHOD_7Z"
    by (simp_all add: METHOD_PDF_def METHOD_FOLDER_def METHOD_7Z_def)
  have w: "(if \<not> True then emit (RateProgress [116] (- 1) None) (empty_world\<lparr>clock := 20, tick := 2\<rparr>)
            else empty_world\<lparr>clock := 20, tick := 2\<rparr>)\<lparr>imgs_path := []\<rparr>
           = empty_world\<lparr>clock := 20, tick := 2\<rparr>"
    by (simp add: empty_world_def)
  show ?thesis
    using unknown_save_method[OF m demo_episode_def, of demo_env empty_world True
        "(demo_episode [])\<lparr>imgs_token := Some [([120, 47, 97], [116]), ([120, 47, 98], [116])]\<rparr>"
        "empty_world\<lparr>clock := 20, tick := 2\<rparr>" "([120, 47, 97], [116])"
        "[([120, 47, 98], [116])]" "[116]" "[100, 47, 49, 50, 95, 49, 46, 106, 112, 103]"]
      demo_init[of "[]"] demo_downloadImg_1[of "[]"]
    by (simp add: w empty_world_def)
qed

section \<open>The page download\<close>

lemma map_of_put [simp]: "map_of (put k v kvs) k' = (if k' = k then Some v else map_of kvs k')"
proof -
  have "map_of (filter (\<lambda>x. fst x \<noteq> k) kvs) k' = (if k' = k then None else map_of kvs k')"
    by (induction kvs) auto
  then show ?thesis by (simp add: put_def map_add_def split: option.splits)
qed

lemma map_of_del [simp]: "map_of (del k kvs) k' = (if k' = k then None else map_of kvs k')"
  unfolding del_def by (induction kvs) auto

lemma fetch_img_accepts:
  "fetch_img env u w = (Inr b, w1) \<longleftrightarrow>
     (\<exists>res d. net_reply env (tick w) (GetImage u) = (Some res, d) \<and> status_code res = 200
        \<and> etag res = Some (md5_hexdigest env b) \<and> res_content res = b
        \<and> w1 = w\<lparr>tick := Suc (tick w), clock := clock w + int d\<rparr>)"
proof (cases "net_reply env (tick w) (GetImage u)")
  case (Pair rep d)
  show ?thesis
  proof (cases rep)
    case None
    with Pair show ?thesis by (simp add: fetch_img_def send_def)
  next
    case (Some res)
    with Pair show ?thesis
      by (cases "etag res") (auto simp: fetch_img_def send_def)
  qed
qed

lemma write_file_ok:
  "write_file env p c w0 = (Inr u, w1) \<Longrightarrow> map_of (files w1) p = Some (File c)"
  by (auto simp: write_file_def Let_def split: option.splits node.splits fault.splits)

lemma write_file_exn: "write_file env p c w0 = (Inl ex, w1) \<Longrightarrow> ex = OSError"
  by (auto simp: write_file_def Let_def split: option.splits node.splits fault.splits)

lemma os_remove_exn: "os_remove env p w0 = (Inl ex, w1) \<Longrightarrow> ex = OSError"
  by (auto simp: os_remove_def Let_def split: option.splits node.splits fault.splits)

lemma clear_loop_exn: "clear_loop env k w = (Inl ex, w1) \<Longrightarrow> ex = OSError"
proof (induction k arbitrary: w)
  case 0
  then show ?case by simp
next
  case (Suc k)
  show ?case
  proof (cases "k < length (imgs_path w)")
    case False
    with Suc.prems show ?thesis by simp
  next
    case True
    obtain a v where o: "os_remove env (imgs_path w ! k) w = (a, v)"
      by (cases "os_remove env (imgs_path w ! k) w")
    show ?thesis
    proof (cases a)
      case (Inl e2)
      with Suc.prems True o have "ex = e2" by (simp add: Let_def)
      with os_remove_exn[of env "imgs_path w ! k" w e2 v] o Inl show ?thesis by simp
    next
      case (Inr x)
      show ?thesis
      proof (cases "path_exists v (imgs_path w ! k)")
        case True
        with Suc.prems \<open>k < length (imgs_path w)\<close> o Inr show ?thesis by (simp add: Let_def)
      next
        case False
        with Suc.prems \<open>k < length (imgs_path w)\<close> o Inr
        have "clear_loop env k (v\<lparr>imgs_path := remove1 (imgs_path w ! k) (imgs_path v)\<rparr>)
            = (Inl ex, w1)"
          by (simp add: Let_def)
        then show ?thesis by (rule Suc.IH)
      qed
    qed
  qed
qed

lemma Retrying_call_last:
  assumes "Retrying_call kw fn w = Some (r, w')"
  shows "\<exists>w0. fn w0 = (r, w')"
  using Retrying_call_inv[where I = "\<lambda>v. True", OF assms] by simp

lemma clearAfterSave_result:
  assumes "clearAfterSave env w = Some (r, w')"
  shows "r = Inr () \<and> (trace w' = trace w \<or> trace w' = trace w @ [MessageBox ClearFailed])"
proof -
  let ?kw = "site_kwargs env SiteClear"
  obtain y where 1: "Retrying_call ?kw (clear_attempt env) w = Some y"
    using assms
    by (cases "Retrying_call ?kw (clear_attempt env) w") (simp_all add: clearAfterSave_def)
  obtain a v where y: "y = (a, v)" by (cases y)
  have tv: "trace v = trace w"
    using Retrying_call_trace[of ?kw "clear_attempt env" w a v] 1 y by simp
  show ?thesis
  proof (cases a)
    case (Inr u)
    with assms 1 y tv show ?thesis by (simp add: clearAfterSave_def)
  next
    case (Inl ex)
    obtain w0 where "clear_attempt env w0 = (Inl ex, v)"
      using Retrying_call_last[of ?kw "clear_attempt env" w a v] 1 y Inl by auto
    then have "ex = OSError" using clear_loop_exn by (simp add: clear_attempt_def)
    with assms 1 y tv Inl show ?thesis by (auto simp: clearAfterSave_def emit_def)
  qed
qed

lemma downloadImg_path:
  assumes "downloadImg env e i u w = Some (Inr (Some p), w')"
  shows "p = temp_path e i \<and>
     (\<exists>b res k d. map_of (files w') p = Some (File (Raw b))
        \<and> net_reply env k (GetImage u) = (Some res, d) \<and> status_code res = 200
        \<and> etag res = Some (md5_hexdigest env b) \<and> res_content res = b)"
proof -
  let ?kw1 = "site_kwargs env SitePageGet" and ?kw2 = "site_kwargs env SiteTempWrite"
  obtain y where 1: "Retrying_call ?kw1 (fetch_img env u) w = Some y"
    using assms
    by (cases "Retrying_call ?kw1 (fetch_img env u) w") (simp_all add: downloadImg_def)
  obtain a v where y: "y = (a, v)" by (cases y)
  show ?thesis
  proof (cases a)
    case (Inl ex)
    with assms 1 y show ?thesis by (simp add: downloadImg_def split: if_splits)
  next
    case (Inr img)
    let ?wr = "write_file env (temp_path e i) (Raw img)"
    have d: "(case Retrying_call ?kw2 ?wr v of
               None \<Rightarrow> None
             | Some (Inl ex, w2) \<Rightarrow>
                 if ex = OSError
                 then Some (Inr None, emit (MessageBox SaveImgFailed) w2)
                 else Some (Inl ex, w2)
             | Some (Inr u, w2) \<Rightarrow> Some (Inr (Some (temp_path e i)), w2))
           = Some (Inr (Some p), w')"
      using assms by (simp add: downloadImg_def 1 y Inr)
    then obtain y2 where 2: "Retrying_call ?kw2 ?wr v = Some y2"
      by (cases "Retrying_call ?kw2 ?wr v") simp_all
    obtain c v2 where y2: "y2 = (c, v2)" by (cases y2)
    have c: "c = Inr () \<and> p = temp_path e i \<and> w' = v2"
      using d unfolding 2 y2 by (cases c) (auto split: if_splits)
    obtain w0 where "fetch_img env u w0 = (Inr img, v)"
      using Retrying_call_last[of ?kw1 "fetch_img env u" w a v] 1 y Inr by auto
    then obtain res d0 where r: "net_reply env (tick w0) (GetImage u) = (Some res, d0)"
        "status_code res = 200" "etag res = Some (md5_hexdigest env img)" "res_content res = img"
      unfolding fetch_img_accepts by blast
    obtain w00 where "?wr w00 = (Inr (), v2)"
      using Retrying_call_last[of ?kw2 ?wr v c v2] 2 y2 c by auto
    then have "map_of (files v2) (temp_path e i) = Some (File (Raw img))"
      by (rule write_file_ok)
    with c r show ?thesis by blast
  qed
qed

lemma download_pages_failed_page:
  assumes d: "downloadImg env e i (fst img @ [63, 116, 111, 107, 101, 110, 61] @ snd img) w
                = Some (Inr None, w1)"
    and p: "download_pages env e taskID n (img # rest) i w = Some (r, w')"
  shows "r = Inr False \<and> assemblies w' = assemblies w
       \<and> RateProgress taskID (- 1) None \<in> set (trace w')"
proof -
  let ?v = "emit (RateProgress taskID (- 1) None) w1"
  have c0: "(case clearAfterSave env ?v of
             None \<Rightarrow> None
           | Some (Inl ex, w2) \<Rightarrow> Some (Inl ex, w2)
           | Some (Inr u, w2) \<Rightarrow> Some (Inr False, w2)) = Some (r, w')"
    using p d by simp
  then obtain y where c: "clearAfterSave env ?v = Some y"
    by (cases "clearAfterSave env ?v") simp_all
  obtain a v2 where y: "y = (a, v2)" by (cases y)
  have res: "a = Inr () \<and> (trace v2 = trace ?v \<or> trace v2 = trace ?v @ [MessageBox ClearFailed])"
    using clearAfterSave_result[of env ?v a v2] c y by simp
  then have rw: "r = Inr False" "w' = v2" using c0 c y by auto
  have "assemblies v2 = assemblies ?v"
    using assemblies_clearAfterSave[of env ?v a v2] c y by simp
  moreover have "assemblies w1 = assemblies w" using assemblies_downloadImg[OF d] .
  moreover have "RateProgress taskID (- 1) None \<in> set (trace v2)"
    using res by (auto simp: emit_def)
  ultimately show ?thesis using rw by simp
qed

lemma not_found_downloadImg:
  "downloadImg not_found_env (demo_episode METHOD_PDF) 1
       [120, 63, 116, 111, 107, 101, 110, 61, 116] empty_world
     = Some (Inr None,
         empty_world\<lparr>clock := 12460, tick := 6, trace := [MessageBox DownloadFailed]\<rparr>)"
  by (simp add: downloadImg_def Retrying_call_def Retrying_loop.simps fetch_img_def send_def
      not_found_env_def demo_env_def plain_response_def empty_world_def site_kwargs_def
      should_stop_def wait_ms_def exponential_sleep_def MAX_WAIT_def Let_def
      is_RequestException_def emit_def)


section \<open>The retry policy of every decorated function\<close>

lemma site_kwargs_timed:
  "site_kwargs env SiteImageIndex = timed (MAX_RETRY_SMALL env) (RETRY_WAIT_EX env)"
  "site_kwargs env SiteImageToken = timed (MAX_RETRY_SMALL env) (RETRY_WAIT_EX env)"
  "site_kwargs env SitePageGet = timed (MAX_RETRY_LARGE env) (RETRY_WAIT_EX env)"
  by (simp_all add: site_kwargs_def timed_def)

lemma Retrying_call_site_five:
  "Retrying_call (site_kwargs env SiteTempWrite) fn w = Some (attempts 4 fn w)"
  "Retrying_call (site_kwargs env SiteClear) fn w = Some (attempts 4 fn w)"
  "Retrying_call (site_kwargs env SitePdf) fn w = Some (attempts 4 fn w)"
  "Retrying_call (site_kwargs env SiteFolder) fn w = Some (attempts 4 fn w)"
  "Retrying_call (site_kwargs env SiteSevenZ) fn w = Some (attempts 4 fn w)"
  by (rule Retrying_call_five, simp add: is_network_def)+

lemma timed_loop:
  "Retrying_loop (timed cap mult) fn st n w =
     (case fn w of
        (Inr v, w1) \<Rightarrow> Some (Inr v, w1)
      | (Inl ex, w1) \<Rightarrow>
          if cap \<le> clock w1 - st then Some (Inl ex, w1)
          else Retrying_loop (timed cap mult) fn st (Suc n)
                 (w1\<lparr>clock := clock w1 + max 0 (min (mult * 2 ^ n) MAX_WAIT)\<rparr>))"
proof -
  have s: "\<And>d. should_stop (timed cap mult) n d \<longleftrightarrow> cap \<le> d"
    by (simp add: should_stop_def timed_def)
  have w: "wait_ms (timed cap mult) n = max 0 (min (mult * 2 ^ n) MAX_WAIT)"
    by (simp add: wait_ms_def timed_def exponential_sleep_eq)
  show ?thesis
    by (subst Retrying_loop.simps) (simp add: s w split: prod.splits sum.splits)
qed

lemma timed_wait_positive:
  assumes "0 < mult"
  shows "1 \<le> max 0 (min (mult * 2 ^ n) MAX_WAIT)"
proof -
  have "(1::int) \<le> 2 ^ n" by simp
  then have "1 * 1 \<le> mult * 2 ^ n" using assms by (intro mult_mono) simp_all
  then show ?thesis by (simp add: MAX_WAIT_def)
qed

lemma timed_loop_ends:
  assumes m: "0 < mult" and mono: "\<And>v. clock v \<le> clock (snd (fn v))"
  shows "\<exists>y. Retrying_loop (timed cap mult) fn st n w = Some y"
proof (induction "nat (cap - (clock w - st))" arbitrary: n w rule: less_induct)
  case less
  obtain a w1 where f: "fn w = (a, w1)" by (cases "fn w")
  have c: "clock w \<le> clock w1" using mono[of w] f by simp
  show ?case
  proof (cases a)
    case (Inr v)
    with f show ?thesis by (subst timed_loop) simp
  next
    case (Inl ex)
    show ?thesis
    proof (cases "cap \<le> clock w1 - st")
      case True
      with f Inl show ?thesis by (subst timed_loop) simp
    next
      case False
      let ?w2 = "w1\<lparr>clock := clock w1 + max 0 (min (mult * 2 ^ n) MAX_WAIT)\<rparr>"
      have "nat (cap - (clock ?w2 - st)) < nat (cap - (clock w - st))"
        using False c timed_wait_positive[OF m, of n] by simp
      from less[OF this, of "Suc n"]
      obtain y where "Retrying_loop (timed cap mult) fn st (Suc n) ?w2 = Some y" by blast
      with f Inl False show ?thesis by (subst timed_loop) simp
    qed
  qed
qed

lemma init_imgsList_policy:
  "init_imgsList env e w =
     (case Retrying_call (timed (MAX_RETRY_SMALL env) (RETRY_WAIT_EX env))
             (fetch_image_index env e) w of
        None \<Rightarrow> None
      | Some (Inl ex, w1) \<Rightarrow>
          if is_RequestException ex
          then Some (Inr False, e, emit (MessageBox ImageListFailed) w1)
          else Some (Inl ex, e, w1)
      | Some (Inr imgs, w1) \<Rightarrow>
          (case those imgs of
             None \<Rightarrow> Some (Inl KeyError, e, w1)
           | Some imgs_urls \<Rightarrow>
               (case Retrying_call (timed (MAX_RETRY_SMALL env) (RETRY_WAIT_EX env))
                       (fetch_image_token env imgs_urls) w1 of
                  None \<Rightarrow> None
                | Some (Inl ex, w2) \<Rightarrow>
                    if is_RequestException ex
                    then Some (Inr False, e, emit (MessageBox TokenFailed) w2)
                    else Some (Inl ex, e, w2)
                | Some (Inr toks, w2) \<Rightarrow>
                    Some (Inr True, e\<lparr>imgs_token := Some toks\<rparr>, w2))))"
  unfolding init_imgsList_def site_kwargs_timed by (rule refl)

lemma downloadImg_policy:
  "downloadImg env e index img_url w =
     (case Retrying_call (timed (MAX_RETRY_LARGE env) (RETRY_WAIT_EX env))
             (fetch_img env img_url) w of
        None \<Rightarrow> None
      | Some (Inl ex, w1) \<Rightarrow>
          if is_RequestException ex
          then Some (Inr None, emit (MessageBox DownloadFailed) w1)
          else Some (Inl ex, w1)
      | Some (Inr img, w1) \<Rightarrow>
          (case attempts 4 (write_file env (temp_path e index) (Raw img)) w1 of
             (Inl ex, w2) \<Rightarrow>
               if ex = OSError
               then Some (Inr None, emit (MessageBox SaveImgFailed) w2)
               else Some (Inl ex, w2)
           | (Inr u, w2) \<Rightarrow> Some (Inr (Some (temp_path e index)), w2)))"
  by (simp add: downloadImg_def site_kwargs_timed Retrying_call_site_five
      split: option.splits prod.splits sum.splits)

lemma clearAfterSave_policy:
  "clearAfterSave env w =
     (case attempts 4 (clear_attempt env) w of
        (Inl ex, w1) \<Rightarrow>
          if ex = OSError then Some (Inr (), emit (MessageBox ClearFailed) w1)
          else Some (Inl ex, w1)
      | (Inr u, w1) \<Rightarrow> Some (Inr (), w1))"
  by (simp add: clearAfterSave_def Retrying_call_site_five split: prod.splits sum.splits)

lemma saveToPDF_policy:
  "saveToPDF env e temp_imgs w =
     (case attempts 4 (pdf_attempt env e temp_imgs) w of
        (Inl ex, w1) \<Rightarrow>
          if ex = OSError then Some (Inr (), emit (MessageBox PdfFailed) w1)
          else Some (Inl ex, w1)
      | (Inr u, w1) \<Rightarrow> Some (Inr (), w1))"
  by (simp add: saveToPDF_def Retrying_call_site_five split: prod.splits sum.splits)

lemma saveToFolder_policy:
  "saveToFolder env e temp_imgs w =
     (case (if \<not> path_exists w (epi_path_folder e) then makedirs env (epi_path_folder e) w
            else (Inr (), w)) of
        (Inl ex, w1) \<Rightarrow>
          if ex = OSError then Some (Inr (), emit (MessageBox FolderFailed) w1)
          else Some (Inl ex, w1)
      | (Inr u, w1) \<Rightarrow>
          (case attempts 4 (save_images env e temp_imgs 1) w1 of
             (Inl ex, w2) \<Rightarrow>
               if ex = OSError then Some (Inr (), emit (MessageBox FolderFailed) w2)
               else Some (Inl ex, w2)
           | (Inr u, w2) \<Rightarrow> Some (Inr (), w2)))"
  by (simp add: saveToFolder_def Retrying_call_site_five split: prod.splits sum.splits)

lemma saveTo7z_policy:
  "saveTo7z env e temp_imgs w =
     (case saveToFolder env e temp_imgs w of
        None \<Rightarrow> None
      | Some (Inl ex, w1) \<Rightarrow> Some (Inl ex, w1)
      | Some (Inr u, w1) \<Rightarrow>
          (case attempts 4 (sevenz_attempt env e) w1 of
             (Inl ex, w2) \<Rightarrow>
               if ex = OSError then Some (Inr (), emit (MessageBox SevenZFailed) w2)
               else Some (Inl ex, w2)
           | (Inr u, w2) \<Rightarrow> Some (Inr (), w2)))"
  by (simp add: saveTo7z_def Retrying_call_site_five split: option.splits prod.splits sum.splits)

lemma first_fault_folder:
  "saveToFolder first_fault_env (demo_episode METHOD_FOLDER) [Image ''RGB'' [1]] empty_world
     = Some (Inr (), empty_world\<lparr>tick := 1, trace := [MessageBox FolderFailed]\<rparr>)"
  by (simp add: saveToFolder_def makedirs_def path_exists_def first_fault_env_def demo_env_def
      empty_world_def demo_episode_eq emit_def Let_def)

lemma clock_send: "clock w \<le> clock (snd (send env rq w))"
  by (simp add: send_def split: prod.splits)

lemma clock_fetch_img: "clock w \<le> clock (snd (fetch_img env u w))"
proof -
  obtain rep w1 where s: "send env (GetImage u) w = (rep, w1)"
    by (cases "send env (GetImage u) w")
  then have "clock w \<le> clock w1" using clock_send[of w env "GetImage u"] by simp
  with s show ?thesis by (simp add: fetch_img_def split: option.splits)
qed

text \<open>
  Claim C8, as stated, fails: not every filesystem operation is retried. With a disk
  whose first operation fails and whose later operations succeed, the folder variant
  reports its failure after the one call of \<open>os.makedirs\<close>, which is outside the
  retried inner function.
\<close>

theorem makedirs_not_retried_counterexample:
  "saveToFolder first_fault_env (demo_episode METHOD_FOLDER) [Image ''RGB'' [1]] empty_world
     = Some (Inr (), empty_world\<lparr>tick := 1, trace := [MessageBox FolderFailed]\<rparr>)
   \<and> fs_fault first_fault_env 1 = NoFault"
  using first_fault_folder by (simp add: first_fault_env_def)

text \<open>
  Claim C8, amended: each decorated function runs under the policy of its class.
  The page-list fetch and the token fetch of \<open>init_imgsList\<close> and the page GET of
  \<open>downloadImg\<close> are retried by the timed loop, with the caps \<open>MAX_RETRY_SMALL\<close>,
  \<open>MAX_RETRY_SMALL\<close> and \<open>MAX_RETRY_LARGE\<close> and the multiplier \<open>RETRY_WAIT_EX\<close>: this
  loop stops after a failed attempt exactly when the elapsed time has reached the cap,
  whatever the number of attempts, and otherwise waits \<open>multiplier * 2 ^ n\<close> ms after
  attempt \<open>n\<close> (capped by the library's maximum), so the wait doubles below that
  maximum, and with a positive multiplier it ends. The temp-file write, the temp-file
  deletion and the inner function of each of the three save methods are up to five
  attempts in a row, without waiting. Outside any retry are the \<open>os.makedirs\<close> of
  \<open>saveToFolder\<close>, which is tried once, and the \<open>Image.open\<close> calls of \<open>download\<close>,
  whose first failure ends \<open>download\<close> with that exception.
\<close>

theorem retry_policy_of_operations:
  "init_imgsList env e w =
     (case Retrying_call (timed (MAX_RETRY_SMALL env) (RETRY_WAIT_EX env))
             (fetch_image_index env e) w of
        None \<Rightarrow> None
      | Some (Inl ex, w1) \<Rightarrow>
          if is_RequestException ex
          then Some (Inr False, e, emit (MessageBox ImageListFailed) w1)
          else Some (Inl ex, e, w1)
      | Some (Inr imgs, w1) \<Rightarrow>
          (case those imgs of
             None \<Rightarrow> Some (Inl KeyError, e, w1)
           | Some imgs_urls \<Rightarrow>
               (case Retrying_call (timed (MAX_RETRY_SMALL env) (RETRY_WAIT_EX env))
                       (fetch_image_token env imgs_urls) w1 of
                  None \<Rightarrow> None
                | Some (Inl ex, w2) \<Rightarrow>
                    if is_RequestException ex
                    then Some (Inr False, e, emit (MessageBox TokenFailed) w2)
                    else Some (Inl ex, e, w2)
                | Some (Inr toks, w2) \<Rightarrow>
                    Some (Inr True, e\<lparr>imgs_token := Some toks\<rparr>, w2))))
   \<and> downloadImg env e index img_url w =
     (case Retrying_call (timed (MAX_RETRY_LARGE env) (RETRY_WAIT_EX env))
             (fetch_img env img_url) w of
        None \<Rightarrow> None
      | Some (Inl ex, w1) \<Rightarrow>
          if is_RequestException ex
          then Some (Inr None, emit (MessageBox DownloadFailed) w1)
          else Some (Inl ex, w1)
      | Some (Inr img, w1) \<Rightarrow>
          (case attempts 4 (write_file env (temp_path e index) (Raw img)) w1 of
             (Inl ex, w2) \<Rightarrow>
               if ex = OSError
               then Some (Inr None, emit (MessageBox SaveImgFailed) w2)
               else Some (Inl ex, w2)
           | (Inr u, w2) \<Rightarrow> Some (Inr (Some (temp_path e index)), w2)))
   \<and> clearAfterSave env w =
     (case attempts 4 (clear_attempt env) w of
        (Inl ex, w1) \<Rightarrow>
          if ex = OSError then Some (Inr (), emit (MessageBox ClearFailed) w1)
          else Some (Inl ex, w1)
      | (Inr u, w1) \<Rightarrow> Some (Inr (), w1))
   \<and> saveToPDF env e temp_imgs w =
     (case attempts 4 (pdf_attempt env e temp_imgs) w of
        (Inl ex, w1) \<Rightarrow>
          if ex = OSError then Some (Inr (), emit (MessageBox PdfFailed) w1)
          else Some (Inl ex, w1)
      | (Inr u, w1) \<Rightarrow> Some (Inr (), w1))
   \<and> saveToFolder env e temp_imgs w =
     (case (if \<not> path_exists w (epi_path_folder e) then makedirs env (epi_path_folder e) w
            else (Inr (), w)) of
        (Inl ex, w1) \<Rightarrow>
          if ex = OSError then Some (Inr (), emit (MessageBox FolderFailed) w1)
          else Some (Inl ex, w1)
      | (Inr u, w1) \<Rightarrow>
          (case attempts 4 (save_images env e temp_imgs 1) w1 of
             (Inl ex, w2) \<Rightarrow>
               if ex = OSError then Some (Inr (), emit (MessageBox FolderFailed) w2)
               else Some (Inl ex, w2)
           | (Inr u, w2) \<Rightarrow> Some (Inr (), w2)))
   \<and> saveTo7z env e temp_imgs w =
     (case saveToFolder env e temp_imgs w of
        None \<Rightarrow> None
      | Some (Inl ex, w1) \<Rightarrow> Some (Inl ex, w1)
      | Some (Inr u, w1) \<Rightarrow>
          (case attempts 4 (sevenz_attempt env e) w1 of
             (Inl ex, w2) \<Rightarrow>
               if ex = OSError then Some (Inr (), emit (MessageBox SevenZFailed) w2)
               else Some (Inl ex, w2)
           | (Inr u, w2) \<Rightarrow> Some (Inr (), w2)))
   \<and> Retrying_call (counted 5) fn w = Some (attempts 4 fn w)
   \<and> Retrying_call (timed cap mult) fn w = Retrying_loop (timed cap mult) fn (clock w) 1 w
   \<and> Retrying_loop (timed cap mult) fn st n w =
     (case fn w of
        (Inr v, w1) \<Rightarrow> Some (Inr v, w1)
      | (Inl ex, w1) \<Rightarrow>
          if cap \<le> clock w1 - st then Some (Inl ex, w1)
          else Retrying_loop (timed cap mult) fn st (Suc n)
                 (w1\<lparr>clock := clock w1 + max 0 (min (mult * 2 ^ n) MAX_WAIT)\<rparr>))
   \<and> (0 < mult \<and> mult * 2 ^ Suc n \<le> MAX_WAIT \<longrightarrow>
        max 0 (min (mult * 2 ^ Suc n) MAX_WAIT) = 2 * max 0 (min (mult * 2 ^ n) MAX_WAIT))
   \<and> (0 < mult \<and> (\<forall>v. clock v \<le> clock (snd (fn v))) \<longrightarrow>
        (\<exists>y. Retrying_loop (timed cap mult) fn st n w = Some y))
   \<and> (init_imgsList env e w = Some (Inr ok, e1, w1) \<longrightarrow> imgs_token e1 = Some toks \<longrightarrow>
        download_pages env e1 taskID (length toks) toks 1
            ((if \<not> ok then emit (RateProgress taskID (- 1) None) w1 else w1)\<lparr>imgs_path := []\<rparr>)
          = Some (Inr True, w4) \<longrightarrow>
        open_images env w4 (imgs_path w4) = Inl ex \<longrightarrow>
        download env e taskID w = Some (Inl ex, w4))"
proof -
  have five: "Retrying_call (counted 5) fn w = Some (attempts 4 fn w)"
    unfolding Retrying_call_def
    by (rule Retrying_loop_count[where m = 5]) (simp_all add: counted_def)
  have dbl: "0 < mult \<and> mult * 2 ^ Suc n \<le> MAX_WAIT \<longrightarrow>
        max 0 (min (mult * 2 ^ Suc n) MAX_WAIT) = 2 * max 0 (min (mult * 2 ^ n) MAX_WAIT)"
  proof
    assume a: "0 < mult \<and> mult * 2 ^ Suc n \<le> MAX_WAIT"
    then have 1: "0 < mult * 2 ^ n" by simp
    have 2: "mult * 2 ^ Suc n = 2 * (mult * 2 ^ n)" by simp
    from a 1 2 have 3: "mult * 2 ^ n \<le> MAX_WAIT" by linarith
    show "max 0 (min (mult * 2 ^ Suc n) MAX_WAIT) = 2 * max 0 (min (mult * 2 ^ n) MAX_WAIT)"
      using a 1 3 by (simp add: min_def max_def)
  qed
  have ends: "0 < mult \<and> (\<forall>v. clock v \<le> clock (snd (fn v))) \<longrightarrow>
        (\<exists>y. Retrying_loop (timed cap mult) fn st n w = Some y)"
    using timed_loop_ends[of mult fn cap st n w] by blast
  have opn: "download env e taskID w = Some (Inl ex, w4)"
    if "init_imgsList env e w = Some (Inr ok, e1, w1)" and "imgs_token e1 = Some toks"
      and "download_pages env e1 taskID (length toks) toks 1
            ((if \<not> ok then emit (RateProgress taskID (- 1) None) w1 else w1)\<lparr>imgs_path := []\<rparr>)
          = Some (Inr True, w4)"
      and "open_images env w4 (imgs_path w4) = Inl ex"
    using that by (simp add: download_def Let_def)
  show ?thesis
    using init_imgsList_policy[of env e w] downloadImg_policy[of env e index img_url w]
      clearAfterSave_policy[of env w] saveToPDF_policy[of env e temp_imgs w]
      saveToFolder_policy[of env e temp_imgs w] saveTo7z_policy[of env e temp_imgs w]
      five timed_loop[of cap mult fn st n w] dbl ends opn
    by (simp only: Retrying_call_def simp_thms) blast
qed

theorem retry_policy_of_operations_witness:
  "(0::int) < 200
   \<and> (\<exists>y. Retrying_loop (timed 10000 200) (fetch_img not_found_env [120]) 0 1 empty_world
           = Some y)
   \<and> clearAfterSave demo_env empty_world = Some (Inr (), empty_world)"
proof -
  have m: "\<forall>v. clock v \<le> clock (snd (fetch_img not_found_env [120] v))"
    using clock_fetch_img by blast
  have a: "attempts 4 (clear_attempt demo_env) empty_world = (Inr (), empty_world)"
    by (simp add: numeral_eq_Suc clear_attempt_def empty_world_def)
  from retry_policy_of_operations[of demo_env _ empty_world _ _ _ "fetch_img not_found_env [120]"
      10000 200 0 1]
  have c: "clearAfterSave demo_env empty_world =
     (case attempts 4 (clear_attempt demo_env) empty_world of
        (Inl ex, w1) \<Rightarrow>
          if ex = OSError then Some (Inr (), emit (MessageBox ClearFailed) w1)
          else Some (Inl ex, w1)
      | (Inr u, w1) \<Rightarrow> Some (Inr (), w1))"
    and e: "0 < (200::int) \<and> (\<forall>v. clock v \<le> clock (snd (fetch_img not_found_env [120] v))) \<longrightarrow>
        (\<exists>y. Retrying_loop (timed 10000 200) (fetch_img not_found_env [120]) 0 1 empty_world
           = Some y)"
    by blast+
  from c a e m show ?thesis by simp
qed

section \<open>Skipping an episode\<close>

lemma cli_save_True: "cli_save env e imgs w = Some (Inr b, w') \<Longrightarrow> b"
  unfolding cli_save_def
  by (auto split: option.splits prod.splits sum.splits if_splits list.splits)

lemma cli_fetch_and_save_True:
  "cli_fetch_and_save env e w = Some (Inr b, w') \<Longrightarrow> b"
  unfolding cli_fetch_and_save_def
  by (auto split: option.splits prod.splits sum.splits if_splits dest: cli_save_True)

lemma cli_download_skip:
  "cli_download env e w = Some (Inr False, w') \<longleftrightarrow> path_exists w (cli_pdf_path e) \<and> w' = w"
  using cli_fetch_and_save_True[of env e w False w']
  by (auto simp: cli_download_def)

lemma tick_send: "tick (snd (send env rq w)) = Suc (tick w)"
  by (simp add: send_def split: prod.splits)

lemma tick_fetch_image_index: "tick (snd (fetch_image_index env e w)) = Suc (tick w)"
proof -
  obtain rep w1 where s: "send env (GetImageIndex (ep_id e)) w = (rep, w1)"
    by (cases "send env (GetImageIndex (ep_id e)) w")
  then have "tick w1 = Suc (tick w)" using tick_send[of env "GetImageIndex (ep_id e)" w] by simp
  with s show ?thesis by (simp add: fetch_image_index_def split: option.splits)
qed

lemma tick_fetch_image_token: "tick (snd (fetch_image_token env us w)) = Suc (tick w)"
proof -
  obtain rep w1 where s: "send env (ImageToken us) w = (rep, w1)"
    by (cases "send env (ImageToken us) w")
  then have "tick w1 = Suc (tick w)" using tick_send[of env "ImageToken us" w] by simp
  with s show ?thesis by (simp add: fetch_image_token_def split: option.splits)
qed

lemma Retrying_call_tick:
  assumes "Retrying_call kw fn w = Some (r, w')" and "\<And>v. tick (snd (fn v)) = Suc (tick v)"
  shows "tick w < tick w'"
proof -
  have "tick w \<le> tick w' \<and> (\<exists>w0. tick w \<le> tick w0 \<and> fn w0 = (r, w'))"
  proof (rule Retrying_call_inv[where I = "\<lambda>v. tick w \<le> tick v", OF assms(1)])
    show "\<And>w0 r w1. tick w \<le> tick w0 \<Longrightarrow> fn w0 = (r, w1) \<Longrightarrow> tick w \<le> tick w1"
      using assms(2) by (metis snd_conv le_SucI)
    show "\<And>w0 d. tick w \<le> tick w0 \<Longrightarrow> tick w \<le> tick (w0\<lparr>clock := d\<rparr>)" by simp
    show "tick w \<le> tick w" by simp
  qed
  then obtain w0 where "tick w \<le> tick w0" "fn w0 = (r, w')" by blast
  then show ?thesis using assms(2)[of w0] by simp
qed

lemma init_imgsList_tick:
  assumes "init_imgsList env e w = Some (a, e1, w1)"
  shows "tick w < tick w1"
proof -
  let ?kw1 = "site_kwargs env SiteImageIndex" and ?kw2 = "site_kwargs env SiteImageToken"
  obtain y where 1: "Retrying_call ?kw1 (fetch_image_index env e) w = Some y"
    using assms
    by (cases "Retrying_call ?kw1 (fetch_image_index env e) w") (simp_all add: init_imgsList_def)
  obtain b v where y: "y = (b, v)" by (cases y)
  have tv: "tick w < tick v"
    using Retrying_call_tick[of ?kw1 "fetch_image_index env e" w b v] 1 y
      tick_fetch_image_index by simp
  show ?thesis
  proof (cases b)
    case (Inl ex)
    have "(if is_RequestException ex
           then Some (Inr False, e, emit (MessageBox ImageListFailed) v)
           else Some (Inl ex, e, v)) = Some (a, e1, w1)"
      using assms by (simp add: init_imgsList_def 1 y Inl)
    then have "w1 = emit (MessageBox ImageListFailed) v \<or> w1 = v"
      by (cases "is_RequestException ex") simp_all
    with tv show ?thesis by (auto simp: emit_def)
  next
    case (Inr imgs)
    show ?thesis
    proof (cases "those imgs")
      case None
      then have "w1 = v" using assms by (simp add: init_imgsList_def 1 y Inr)
      with tv show ?thesis by simp
    next
      case (Some us)
      have d: "(case Retrying_call ?kw2 (fetch_image_token env us) v of
                 None \<Rightarrow> None
               | Some (Inl ex, w2) \<Rightarrow>
                   if is_RequestException ex
                   then Some (Inr False, e, emit (MessageBox TokenFailed) w2)
                   else Some (Inl ex, e, w2)
               | Some (Inr toks, w2) \<Rightarrow> Some (Inr True, e\<lparr>imgs_token := Some toks\<rparr>, w2))
             = Some (a, e1, w1)"
        using assms by (simp add: init_imgsList_def 1 y Inr Some)
      then obtain y2 where 2: "Retrying_call ?kw2 (fetch_image_token env us) v = Some y2"
        by (cases "Retrying_call ?kw2 (fetch_image_token env us) v") simp_all
      obtain c v2 where y2: "y2 = (c, v2)" by (cases y2)
      have tv2: "tick v < tick v2"
        using Retrying_call_tick[of ?kw2 "fetch_image_token env us" v c v2] 2 y2
          tick_fetch_image_token by simp
      have "w1 = emit (MessageBox TokenFailed) v2 \<or> w1 = v2"
        using d unfolding 2 y2 by (cases c) (auto split: if_splits)
      with tv tv2 show ?thesis by (auto simp: emit_def)
    qed
  qed
qed

lemma download_requests_first:
  assumes "download env e taskID w = Some (r, w')"
  shows "\<exists>a e1 w1. init_imgsList env e w = Some (a, e1, w1) \<and> tick w < tick w1"
proof -
  obtain y where I: "init_imgsList env e w = Some y"
    using assms by (cases "init_imgsList env e w") (simp_all add: download_def)
  obtain a e1 w1 where y: "y = (a, e1, w1)" by (cases y)
  with I init_imgsList_tick[of env e w a e1 w1] show ?thesis by simp
qed

lemma tick_write_file: "tick (snd (write_file env p c w)) = Suc (tick w)"
  by (simp add: write_file_def Let_def split: option.splits node.splits fault.splits)

lemma tick_os_remove: "tick (snd (os_remove env p w)) = Suc (tick w)"
  by (simp add: os_remove_def Let_def split: option.splits node.splits fault.splits)

lemma tick_makedirs: "tick (snd (makedirs env p w)) = Suc (tick w)"
  by (simp add: makedirs_def Let_def split: option.splits node.splits fault.splits)

lemma tick_rmtree: "tick (snd (rmtree env p w)) = Suc (tick w)"
  by (simp add: rmtree_def Let_def split: option.splits node.splits fault.splits)

lemma tick_write_in_dir: "tick (snd (write_in_dir env d n c w)) = Suc (tick w)"
  by (simp add: write_in_dir_def Let_def split: option.splits node.splits fault.splits)

lemma tick_read_pdf: "tick (snd (read_pdf env p w)) = Suc (tick w)"
  by (simp add: read_pdf_def Let_def split: option.splits node.splits fault.splits content.splits)

lemma tick_fetch_img: "tick (snd (fetch_img env u w)) = Suc (tick w)"
proof -
  obtain rep w1 where s: "send env (GetImage u) w = (rep, w1)"
    by (cases "send env (GetImage u) w")
  then have "tick w1 = Suc (tick w)" using tick_send[of env "GetImage u" w] by simp
  with s show ?thesis by (simp add: fetch_img_def split: option.splits)
qed

lemma Retrying_call_tick_le:
  assumes "Retrying_call kw fn w = Some (r, w')" and "\<And>v. tick v \<le> tick (snd (fn v))"
  shows "tick w \<le> tick w'"
proof -
  have "tick w \<le> tick w' \<and> (\<exists>w0. tick w \<le> tick w0 \<and> fn w0 = (r, w'))"
  proof (rule Retrying_call_inv[where I = "\<lambda>v. tick w \<le> tick v", OF assms(1)])
    show "\<And>w0 r w1. tick w \<le> tick w0 \<Longrightarrow> fn w0 = (r, w1) \<Longrightarrow> tick w \<le> tick w1"
      using assms(2) by (metis snd_conv le_trans)
    show "\<And>w0 d. tick w \<le> tick w0 \<Longrightarrow> tick w \<le> tick (w0\<lparr>clock := d\<rparr>)" by simp
    show "tick w \<le> tick w" by simp
  qed
  then show ?thesis by blast
qed

lemma tick_clear_loop: "tick w \<le> tick (snd (clear_loop env k w))"
proof (induction k arbitrary: w)
  case 0
  then show ?case by simp
next
  case (Suc k)
  show ?case
  proof (cases "k < length (imgs_path w)")
    case False
    then show ?thesis by simp
  next
    case True
    obtain r w1 where o: "os_remove env (imgs_path w ! k) w = (r, w1)"
      by (cases "os_remove env (imgs_path w ! k) w")
    then have t: "tick w1 = Suc (tick w)" using tick_os_remove[of env "imgs_path w ! k" w] by simp
    have "tick w1 \<le> tick (snd (clear_loop env k (w1\<lparr>imgs_path := remove1 (imgs_path w ! k) (imgs_path w1)\<rparr>)))"
      using Suc.IH[of "w1\<lparr>imgs_path := remove1 (imgs_path w ! k) (imgs_path w1)\<rparr>"] by simp
    then show ?thesis
      using True o t by (simp add: Let_def split: sum.splits)
  qed
qed

lemma tick_clear_attempt: "tick w \<le> tick (snd (clear_attempt env w))"
  by (simp add: clear_attempt_def tick_clear_loop)

lemma tick_clearAfterSave:
  assumes "clearAfterSave env w = Some (r, w1)"
  shows "tick w \<le> tick w1"
proof -
  obtain a v where 1: "Retrying_call (site_kwargs env SiteClear) (clear_attempt env) w = Some (a, v)"
    using assms by (auto simp: clearAfterSave_def split: option.splits)
  have "tick w \<le> tick v"
    using Retrying_call_tick_le[OF 1] tick_clear_attempt by simp
  with assms 1 show ?thesis
    by (auto simp: clearAfterSave_def emit_def split: if_splits sum.splits)
qed

lemma tick_downloadImg:
  assumes "downloadImg env e i u w = Some (r, w1)"
  shows "tick w \<le> tick w1"
proof -
  let ?kw1 = "site_kwargs env SitePageGet" and ?kw2 = "site_kwargs env SiteTempWrite"
  obtain y where 1: "Retrying_call ?kw1 (fetch_img env u) w = Some y"
    using assms
    by (cases "Retrying_call ?kw1 (fetch_img env u) w") (simp_all add: downloadImg_def)
  obtain a v where y: "y = (a, v)" by (cases y)
  have tv: "tick w \<le> tick v"
    using Retrying_call_tick_le[of ?kw1 "fetch_img env u" w a v] 1 y tick_fetch_img by simp
  show ?thesis
  proof (cases a)
    case (Inl ex)
    have "(if is_RequestException ex
           then Some (Inr None, emit (MessageBox DownloadFailed) v)
           else Some (Inl ex, v)) = Some (r, w1)"
      using assms by (simp add: downloadImg_def 1 y Inl)
    then have "w1 = emit (MessageBox DownloadFailed) v \<or> w1 = v"
      by (cases "is_RequestException ex") simp_all
    with tv show ?thesis by (auto simp: emit_def)
  next
    case (Inr img)
    let ?wr = "write_file env (temp_path e i) (Raw img)"
    have d: "(case Retrying_call ?kw2 ?wr v of
               None \<Rightarrow> None
             | Some (Inl ex, w2) \<Rightarrow>
                 if ex = OSError
                 then Some (Inr None, emit (MessageBox SaveImgFailed) w2)
                 else Some (Inl ex, w2)
             | Some (Inr u, w2) \<Rightarrow> Some (Inr (Some (temp_path e i)), w2))
           = Some (r, w1)"
      using assms by (simp add: downloadImg_def 1 y Inr)
    then obtain y2 where 2: "Retrying_call ?kw2 ?wr v = Some y2"
      by (cases "Retrying_call ?kw2 ?wr v") simp_all
    obtain b v2 where y2: "y2 = (b, v2)" by (cases y2)
    have tv2: "tick v \<le> tick v2"
      using Retrying_call_tick_le[of ?kw2 ?wr v b v2] 2 y2 tick_write_file by simp
    have "w1 = emit (MessageBox SaveImgFailed) v2 \<or> w1 = v2"
      using d unfolding 2 y2 by (cases b) (auto split: if_splits)
    with tv tv2 show ?thesis by (auto simp: emit_def)
  qed
qed

lemma tick_download_pages:
  "download_pages env e tid n toks i w = Some (r, w1) \<Longrightarrow> tick w \<le> tick w1"
proof (induction toks arbitrary: i w)
  case Nil
  then show ?case by simp
next
  case (Cons img rest)
  let ?u = "fst img @ [63, 116, 111, 107, 101, 110, 61] @ snd img"
  obtain a v where d: "downloadImg env e i ?u w = Some (a, v)"
    using Cons.prems by (auto split: option.splits)
  have av: "tick w \<le> tick v" using tick_downloadImg[OF d] .
  show ?case
  proof (cases a)
    case (Inl ex)
    with Cons.prems d av show ?thesis by simp
  next
    case (Inr po)
    show ?thesis
    proof (cases po)
      case None
      with Cons.prems d Inr obtain b v2 where
        c: "clearAfterSave env (emit (RateProgress tid (- 1) None) v) = Some (b, v2)"
        by (auto split: option.splits)
      have "tick v \<le> tick v2" using tick_clearAfterSave[OF c] by (simp add: emit_def)
      with Cons.prems d Inr None c av show ?thesis by (auto split: sum.splits)
    next
      case (Some p)
      show ?thesis
      proof (cases "epi_path e")
        case None
        with Cons.prems d Inr Some av show ?thesis by (auto simp: Let_def)
      next
        case (Some q)
        with Cons.prems d Inr \<open>po = Some p\<close>
        have "download_pages env e tid n rest (Suc i)
            (emit (RateProgress tid (rate_of env i n) (Some q))
               (v\<lparr>imgs_path := imgs_path v @ [p]\<rparr>)) = Some (r, w1)"
          by (simp add: Let_def)
        from Cons.IH[OF this] av show ?thesis by (simp add: emit_def)
      qed
    qed
  qed
qed

lemma tick_pdf_attempt: "tick w \<le> tick (snd (pdf_attempt env e imgs w))"
proof (cases imgs)
  case Nil
  then show ?thesis by (simp add: pdf_attempt_def)
next
  case (Cons img rest)
  obtain a w1 where 1: "write_file env (epi_path_pdf e) (PdfPages (img # rest)) w = (a, w1)"
    by (cases "write_file env (epi_path_pdf e) (PdfPages (img # rest)) w")
  have t1: "tick w1 = Suc (tick w)"
    using tick_write_file[of env "epi_path_pdf e" "PdfPages (img # rest)" w] 1 by simp
  obtain b w2 where 2: "read_pdf env (epi_path_pdf e) w1 = (b, w2)"
    by (cases "read_pdf env (epi_path_pdf e) w1")
  have t2: "tick w2 = Suc (tick w1)" using tick_read_pdf[of env "epi_path_pdf e" w1] 2 by simp
  show ?thesis
  proof (cases a)
    case (Inl ex)
    with Cons 1 t1 show ?thesis by (simp add: pdf_attempt_def)
  next
    case (Inr u)
    show ?thesis
    proof (cases b)
      case (Inl ex)
      with Cons 1 2 t1 t2 Inr show ?thesis by (simp add: pdf_attempt_def)
    next
      case (Inr ps)
      with Cons 1 2 t1 t2 \<open>a = Inr u\<close> show ?thesis
        by (simp add: pdf_attempt_def tick_write_file)
    qed
  qed
qed

lemma tick_save_images: "tick w \<le> tick (snd (save_images env e imgs i w))"
proof (induction imgs arbitrary: i w)
  case Nil
  then show ?case by simp
next
  case (Cons img rest)
  obtain a w1 where 1: "write_in_dir env (epi_path_folder e) (page_name i)
             (Jpeg img (exif_tags env e)) w = (a, w1)"
    by (cases "write_in_dir env (epi_path_folder e) (page_name i) (Jpeg img (exif_tags env e)) w")
  have t1: "tick w1 = Suc (tick w)"
    using tick_write_in_dir[of env "epi_path_folder e" "page_name i" "Jpeg img (exif_tags env e)" w] 1
    by simp
  show ?case
  proof (cases a)
    case (Inl ex)
    with 1 t1 show ?thesis by simp
  next
    case (Inr u)
    have "tick w1 \<le> tick (snd (save_images env e rest (Suc i) w1))" by (rule Cons.IH)
    with 1 t1 Inr show ?thesis by simp
  qed
qed

lemma tick_sevenz_attempt: "tick w \<le> tick (snd (sevenz_attempt env e w))"
proof -
  define entries where "entries = (case map_of (files w) (epi_path_folder e) of
                       Some (Dir es) \<Rightarrow> es | _ \<Rightarrow> [])"
  obtain a w1 where 1: "write_file env (epi_path_7z e) (SevenZip entries) w = (a, w1)"
    by (cases "write_file env (epi_path_7z e) (SevenZip entries) w")
  have t1: "tick w1 = Suc (tick w)"
    using tick_write_file[of env "epi_path_7z e" "SevenZip entries" w] 1 by simp
  have e: "sevenz_attempt env e w =
     (case write_file env (epi_path_7z e) (SevenZip entries) w of
           (Inl ex, w1) \<Rightarrow> (Inl ex, w1)
         | (Inr u, w1) \<Rightarrow> rmtree env (epi_path_folder e) w1)"
    by (simp add: sevenz_attempt_def entries_def Let_def)
  show ?thesis
    unfolding e 1 using t1 by (cases a) (simp_all add: tick_rmtree)
qed

lemma tick_saveToPDF:
  assumes "saveToPDF env e imgs w = Some (r, w1)"
  shows "tick w \<le> tick w1"
proof -
  obtain a v where 1: "Retrying_call (site_kwargs env SitePdf) (pdf_attempt env e imgs) w = Some (a, v)"
    using assms by (auto simp: saveToPDF_def split: option.splits)
  have "tick w \<le> tick v"
    using Retrying_call_tick_le[OF 1] tick_pdf_attempt by simp
  with assms 1 show ?thesis
    by (auto simp: saveToPDF_def emit_def split: if_splits sum.splits)
qed

lemma tick_saveToFolder:
  assumes "saveToFolder env e imgs w = Some (r, w1)"
  shows "tick w \<le> tick w1"
proof -
  define m where "m = (if \<not> path_exists w (epi_path_folder e) then makedirs env (epi_path_folder e) w
            else (Inr (), w))"
  obtain a v where m: "m = (a, v)" by (cases m)
  have tv: "tick w \<le> tick v"
    using m tick_makedirs[of env "epi_path_folder e" w] unfolding m_def
    by (auto split: if_splits)
  have S: "(case m of
        (Inl ex, w1) \<Rightarrow>
          if ex = OSError then Some (Inr (), emit (MessageBox FolderFailed) w1)
          else Some (Inl ex, w1)
      | (Inr u, w1) \<Rightarrow>
          (case Retrying_call (site_kwargs env SiteFolder)
                  (save_images env e imgs 1) w1 of
             None \<Rightarrow> None
           | Some (Inl ex, w2) \<Rightarrow>
               if ex = OSError then Some (Inr (), emit (MessageBox FolderFailed) w2)
               else Some (Inl ex, w2)
           | Some (Inr u, w2) \<Rightarrow> Some (Inr (), w2))) = Some (r, w1)"
    using assms unfolding saveToFolder_def m_def .
  show ?thesis
  proof (cases a)
    case (Inl ex)
    with S m have "w1 = emit (MessageBox FolderFailed) v \<or> w1 = v" by (auto split: if_splits)
    with tv show ?thesis by (auto simp: emit_def)
  next
    case (Inr u)
    with S m obtain b v2 where
      2: "Retrying_call (site_kwargs env SiteFolder) (save_images env e imgs 1) v = Some (b, v2)"
      by (auto split: option.splits)
    have "tick v \<le> tick v2"
      using Retrying_call_tick_le[OF 2] tick_save_images by simp
    moreover have "w1 = emit (MessageBox FolderFailed) v2 \<or> w1 = v2"
      using S m Inr 2 by (auto split: if_splits sum.splits)
    ultimately show ?thesis using tv by (auto simp: emit_def)
  qed
qed

lemma tick_saveTo7z:
  assumes "saveTo7z env e imgs w = Some (r, w1)"
  shows "tick w \<le> tick w1"
proof -
  obtain a v where 1: "saveToFolder env e imgs w = Some (a, v)"
    using assms by (auto simp: saveTo7z_def split: option.splits)
  have tv: "tick w \<le> tick v" using tick_saveToFolder[OF 1] .
  show ?thesis
  proof (cases a)
    case (Inl ex)
    with assms 1 tv show ?thesis by (simp add: saveTo7z_def)
  next
    case (Inr u)
    with assms 1 obtain b v2 where
      2: "Retrying_call (site_kwargs env SiteSevenZ) (sevenz_attempt env e) v = Some (b, v2)"
      by (auto simp: saveTo7z_def split: option.splits)
    have "tick v \<le> tick v2"
      using Retrying_call_tick_le[OF 2] tick_sevenz_attempt by simp
    moreover have "w1 = emit (MessageBox SevenZFailed) v2 \<or> w1 = v2"
      using assms 1 Inr 2 by (auto simp: saveTo7z_def split: if_splits sum.splits)
    ultimately show ?thesis using tv by (auto simp: emit_def)
  qed
qed

lemma tick_dispatch_save:
  assumes "dispatch_save env e imgs w = Some (r, w1)"
  shows "tick w \<le> tick w1"
proof -
  consider (pdf) m where "saveToPDF env e imgs (emit (Assemble m) w) = Some (r, w1)"
    | (folder) m where "saveToFolder env e imgs (emit (Assemble m) w) = Some (r, w1)"
    | (sevenz) m where "saveTo7z env e imgs (emit (Assemble m) w) = Some (r, w1)"
    | (none) "w1 = w"
    using assms by (auto simp: dispatch_save_def split: if_splits)
  then show ?thesis
  proof cases
    case pdf
    from tick_saveToPDF[OF this] show ?thesis by (simp add: emit_def)
  next
    case folder
    from tick_saveToFolder[OF this] show ?thesis by (simp add: emit_def)
  next
    case sevenz
    from tick_saveTo7z[OF this] show ?thesis by (simp add: emit_def)
  next
    case none
    then show ?thesis by simp
  qed
qed

lemma download_tick:
  assumes D: "download env e taskID w = Some (r, w')"
  shows "tick w < tick w'"
proof -
  obtain y where I: "init_imgsList env e w = Some y"
    using D by (cases "init_imgsList env e w") (simp_all add: download_def)
  obtain a e1 w1 where y: "y = (a, e1, w1)" by (cases y)
  have a1: "tick w < tick w1"
    using init_imgsList_tick[of env e w a e1 w1] I y by simp
  show ?thesis
  proof (cases a)
    case (Inl ex)
    then have "w' = w1" using D by (simp add: download_def I y)
    with a1 show ?thesis by simp
  next
    case (Inr ok)
    define w3 where "w3 = (if \<not> ok then emit (RateProgress taskID (- 1) None) w1 else w1)
        \<lparr>imgs_path := []\<rparr>"
    have a3: "tick w < tick w3" using a1 by (simp add: w3_def emit_def)
    show ?thesis
    proof (cases "imgs_token e1")
      case None
      then have "w' = w3" using D by (simp add: download_def I y Inr Let_def w3_def)
      with a3 show ?thesis by simp
    next
      case (Some toks)
      have D2: "(case download_pages env e1 taskID (length toks) toks (Suc 0) w3 of
                  None \<Rightarrow> None
                | Some (Inl ex, w4) \<Rightarrow> Some (Inl ex, w4)
                | Some (Inr False, w4) \<Rightarrow> Some (Inr (), w4)
                | Some (Inr True, w4) \<Rightarrow>
                    (case open_images env w4 (imgs_path w4) of
                       Inl ex \<Rightarrow> Some (Inl ex, w4)
                     | Inr imgs \<Rightarrow>
                         (case dispatch_save env e1 (map to_rgb imgs) w4 of
                            None \<Rightarrow> None
                          | Some (Inl ex, w5) \<Rightarrow> Some (Inl ex, w5)
                          | Some (Inr u, w5) \<Rightarrow> clearAfterSave env w5))) = Some (r, w')"
        using D by (simp add: download_def I y Inr Let_def w3_def Some)
      then obtain y2 where P: "download_pages env e1 taskID (length toks) toks (Suc 0) w3 = Some y2"
        by (cases "download_pages env e1 taskID (length toks) toks (Suc 0) w3") simp_all
      obtain b w4 where y2: "y2 = (b, w4)" by (cases y2)
      have a4: "tick w < tick w4"
        using tick_download_pages[of env e1 taskID "length toks" toks "Suc 0" w3 b w4] P y2 a3
        by simp
      show ?thesis
      proof (cases b)
        case (Inl ex)
        then have "w' = w4" using D2 by (simp add: P y2)
        with a4 show ?thesis by simp
      next
        case (Inr go)
        show ?thesis
        proof (cases go)
          case False
          then have "w' = w4" using D2 by (simp add: P y2 Inr)
          with a4 show ?thesis by simp
        next
          case True
          show ?thesis
          proof (cases "open_images env w4 (imgs_path w4)")
            case (Inl ex)
            then have "w' = w4" using D2 by (simp add: P y2 \<open>b = Inr go\<close> True)
            with a4 show ?thesis by simp
          next
            case (Inr imgs)
            have D3: "(case dispatch_save env e1 (map to_rgb imgs) w4 of
                            None \<Rightarrow> None
                          | Some (Inl ex, w5) \<Rightarrow> Some (Inl ex, w5)
                          | Some (Inr u, w5) \<Rightarrow> clearAfterSave env w5) = Some (r, w')"
              using D2 by (simp add: P y2 \<open>b = Inr go\<close> True Inr)
            then obtain c w5 where S: "dispatch_save env e1 (map to_rgb imgs) w4 = Some (c, w5)"
              by (cases "dispatch_save env e1 (map to_rgb imgs) w4") auto
            have a5: "tick w < tick w5" using tick_dispatch_save[OF S] a4 by simp
            show ?thesis
            proof (cases c)
              case (Inl ex)
              then have "w' = w5" using D3 S by simp
              with a5 show ?thesis by simp
            next
              case (Inr u)
              then have "clearAfterSave env w5 = Some (r, w')" using D3 S by simp
              from tick_clearAfterSave[OF this] a5 show ?thesis by simp
            qed
          qed
        qed
      qed
    qed
  qed
qed

lemma demo_init_files:
  "init_imgsList demo_env (demo_episode m)
       \<lparr>files = fs, clock = 0, tick = 0, imgs_path = [], trace = []\<rparr>
     = Some (Inr True,
         (demo_episode m)\<lparr>imgs_token := Some [([120, 47, 97], [116]), ([120, 47, 98], [116])]\<rparr>,
         \<lparr>files = fs, clock = 20, tick = 2, imgs_path = [], trace = []\<rparr>)"
  by (simp add: init_imgsList_def Retrying_call_def Retrying_loop.simps fetch_image_index_def
      fetch_image_token_def send_def demo_env_def demo_net_def plain_response_def
      site_kwargs_def)

lemma demo_download_pages_pdf:
  "download_pages demo_env
       ((demo_episode METHOD_PDF)\<lparr>imgs_token :=
          Some [([120, 47, 97], [116]), ([120, 47, 98], [116])]\<rparr>)
       [116] (Suc (Suc 0)) [([120, 47, 97], [116]), ([120, 47, 98], [116])] (Suc 0)
       \<lparr>files = [([100, 47, 31532, 49, 35805, 46, 112, 100, 102], File Truncated)],
          clock = 20, tick = 2, imgs_path = [], trace = []\<rparr>
     = Some (Inr True,
         \<lparr>files = [([100, 47, 31532, 49, 35805, 46, 112, 100, 102], File Truncated),
                   ([100, 47, 49, 50, 95, 49, 46, 106, 112, 103],
                      File (Raw [120, 47, 97, 63, 116, 111, 107, 101, 110, 61, 116])),
                   ([100, 47, 49, 50, 95, 50, 46, 106, 112, 103],
                      File (Raw [120, 47, 98, 63, 116, 111, 107, 101, 110, 61, 116]))],
          clock = 40, tick = 6,
          imgs_path = [[100, 47, 49, 50, 95, 49, 46, 106, 112, 103],
                       [100, 47, 49, 50, 95, 50, 46, 106, 112, 103]],
          trace = [RateProgress [116] 50 (Some [100, 47, 31532, 49, 35805, 46, 112, 100, 102]),
                   RateProgress [116] 100 (Some [100, 47, 31532, 49, 35805, 46, 112, 100, 102])]\<rparr>)"
  by (simp add: downloadImg_def Retrying_call_def Retrying_loop.simps fetch_img_def
      send_def demo_env_def demo_net_def plain_response_def write_file_def put_def
      site_kwargs_def temp_path_def demo_episode_eq path_join_def str_int_def
      Let_def emit_def METHOD_PDF_def)

lemma demo_save_pdf:
  "dispatch_save demo_env
       ((demo_episode METHOD_PDF)\<lparr>imgs_token :=
          Some [([120, 47, 97], [116]), ([120, 47, 98], [116])]\<rparr>)
       [Image ''RGB'' [120, 47, 97, 63, 116, 111, 107, 101, 110, 61, 116],
        Image ''RGB'' [120, 47, 98, 63, 116, 111, 107, 101, 110, 61, 116]]
       \<lparr>files = [([100, 47, 31532, 49, 35805, 46, 112, 100, 102], File Truncated),
                   ([100, 47, 49, 50, 95, 49, 46, 106, 112, 103],
                      File (Raw [120, 47, 97, 63, 116, 111, 107, 101, 110, 61, 116])),
                   ([100, 47, 49, 50, 95, 50, 46, 106, 112, 103],
                      File (Raw [120, 47, 98, 63, 116, 111, 107, 101, 110, 61, 116]))],
          clock = 40, tick = 6,
          imgs_path = [[100, 47, 49, 50, 95, 49, 46, 106, 112, 103],
                       [100, 47, 49, 50, 95, 50, 46, 106, 112, 103]],
          trace = [RateProgress [116] 50 (Some [100, 47, 31532, 49, 35805, 46, 112, 100, 102]),
                   RateProgress [116] 100 (Some [100, 47, 31532, 49, 35805, 46, 112, 100, 102])]\<rparr>
     = Some (Inr (),
         \<lparr>files = [([100, 47, 49, 50, 95, 49, 46, 106, 112, 103],
                      File (Raw [120, 47, 97, 63, 116, 111, 107, 101, 110, 61, 116])),
                   ([100, 47, 49, 50, 95, 50, 46, 106, 112, 103],
                      File (Raw [120, 47, 98, 63, 116, 111, 107, 101, 110, 61, 116])),
                   ([100, 47, 31532, 49, 35805, 46, 112, 100, 102],
                     File (PdfDoc
                       [Image ''RGB'' [120, 47, 97, 63, 116, 111, 107, 101, 110, 61, 116],
                        Image ''RGB'' [120, 47, 98, 63, 116, 111, 107, 101, 110, 61, 116]]
                       [[12298, 66, 12299, 32, 45, 32, 31532, 49, 35805], [67],
                        [65, 32, 49, 32, 67]]))],
          clock = 40, tick = 9,
          imgs_path = [[100, 47, 49, 50, 95, 49, 46, 106, 112, 103],
                       [100, 47, 49, 50, 95, 50, 46, 106, 112, 103]],
          trace = [RateProgress [116] 50 (Some [100, 47, 31532, 49, 35805, 46, 112, 100, 102]),
                   RateProgress [116] 100 (Some [100, 47, 31532, 49, 35805, 46, 112, 100, 102]),
                   Assemble [80, 68, 70]]\<rparr>)"
  by (simp add: demo_env_def dispatch_save_def demo_episode_eq
          METHOD_PDF_def saveToPDF_def Retrying_call_def Retrying_loop.simps
          site_kwargs_def pdf_attempt_def write_file_def read_pdf_def put_def emit_def
          pdf_metadata_def meta_title_def Let_def)

lemma demo_clear:
  "clearAfterSave demo_env
         \<lparr>files = [([100, 47, 49, 50, 95, 49, 46, 106, 112, 103],
                      File (Raw [120, 47, 97, 63, 116, 111, 107, 101, 110, 61, 116])),
                   ([100, 47, 49, 50, 95, 50, 46, 106, 112, 103],
                      File (Raw [120, 47, 98, 63, 116, 111, 107, 101, 110, 61, 116])),
                   ([100, 47, 31532, 49, 35805, 46, 112, 100, 102], File c)],
          clock = 40, tick = 9,
          imgs_path = [[100, 47, 49, 50, 95, 49, 46, 106, 112, 103],
                       [100, 47, 49, 50, 95, 50, 46, 106, 112, 103]],
          trace = tr\<rparr>
     = Some (Inr (),
         \<lparr>files = [([100, 47, 31532, 49, 35805, 46, 112, 100, 102], File c)],
          clock = 40, tick = 11, imgs_path = [], trace = tr\<rparr>)"
  by (simp add: demo_env_def clearAfterSave_def Retrying_call_def Retrying_loop.simps
          site_kwargs_def emit_def clear_attempt_def os_remove_def del_def
          path_exists_def Let_def numeral_2_eq_2)

lemma demo_download_pdf_present:
  "download demo_env (demo_episode METHOD_PDF) [116]
       (empty_world\<lparr>files := [([100, 47, 31532, 49, 35805, 46, 112, 100, 102], File Truncated)]\<rparr>)
     = Some (Inr (),
         \<lparr>files = [([100, 47, 31532, 49, 35805, 46, 112, 100, 102],
                     File (PdfDoc
                       [Image ''RGB'' [120, 47, 97, 63, 116, 111, 107, 101, 110, 61, 116],
                        Image ''RGB'' [120, 47, 98, 63, 116, 111, 107, 101, 110, 61, 116]]
                       [[12298, 66, 12299, 32, 45, 32, 31532, 49, 35805], [67],
                        [65, 32, 49, 32, 67]]))],
          clock = 40, tick = 11, imgs_path = [],
          trace = [RateProgress [116] 50 (Some [100, 47, 31532, 49, 35805, 46, 112, 100, 102]),
                   RateProgress [116] 100 (Some [100, 47, 31532, 49, 35805, 46, 112, 100, 102]),
                   Assemble [80, 68, 70]]\<rparr>)"
proof -
  have o: "image_mode demo_env = (\<lambda>b. Some ''L'')" by (simp add: demo_env_def)
  note P = demo_download_pages_pdf
  show ?thesis
    by (simp add: download_def empty_world_def demo_init_files P Let_def
        Image_open_def o to_rgb_def demo_save_pdf demo_clear del: download_pages.simps)
qed

text \<open>
  Claim C1, amended: whatever save format is configured, \<open>Episode.isDownloaded\<close> of
  \<open>Episode.py\<close> reports an episode as already downloaded if and only if the canonical
  path of at least one of the three formats exists, these being the paths that the
  constructor assigns as canonical for PDF, folder and 7z. \<open>Episode.download\<close> of
  \<open>Episode.py\<close> does not consult it: every run of \<open>download\<close> that returns has
  interacted with the network, whether or not an artifact exists. In \<open>main.py\<close>, which
  knows the PDF format only, \<open>download\<close> returns \<open>False\<close> and leaves everything as it
  was, sending no request, if and only if its one path exists.
\<close>

theorem skip_check_paths:
  "epi_path (Episode_init dec ep info METHOD_PDF)
       = Some (epi_path_pdf (Episode_init dec ep info method))
   \<and> epi_path (Episode_init dec ep info METHOD_FOLDER)
       = Some (epi_path_folder (Episode_init dec ep info method))
   \<and> epi_path (Episode_init dec ep info METHOD_7Z)
       = Some (epi_path_7z (Episode_init dec ep info method))
   \<and> (isDownloaded w (Episode_init dec ep info method) \<longleftrightarrow>
        path_exists w (epi_path_pdf (Episode_init dec ep info method))
        \<or> path_exists w (epi_path_folder (Episode_init dec ep info method))
        \<or> path_exists w (epi_path_7z (Episode_init dec ep info method)))
   \<and> (download env e taskID w = Some (r, w') \<longrightarrow> tick w < tick w')
   \<and> (cli_download env ce w = Some (Inr False, w'') \<longleftrightarrow>
        path_exists w (cli_pdf_path ce) \<and> w'' = w)"
proof -
  have 1: "epi_path (Episode_init dec ep info METHOD_PDF)
       = Some (epi_path_pdf (Episode_init dec ep info method))"
    "epi_path (Episode_init dec ep info METHOD_FOLDER)
       = Some (epi_path_folder (Episode_init dec ep info method))"
    "epi_path (Episode_init dec ep info METHOD_7Z)
       = Some (epi_path_7z (Episode_init dec ep info method))"
    by (simp_all add: Episode_init_def Let_def METHOD_PDF_def METHOD_FOLDER_def METHOD_7Z_def)
  have 2: "isDownloaded w (Episode_init dec ep info method) \<longleftrightarrow>
        path_exists w (epi_path_pdf (Episode_init dec ep info method))
        \<or> path_exists w (epi_path_folder (Episode_init dec ep info method))
        \<or> path_exists w (epi_path_7z (Episode_init dec ep info method))"
    by (simp add: isDownloaded_def)
  have 3: "download env e taskID w = Some (r, w') \<longrightarrow> tick w < tick w'"
    using download_tick by blast
  from 1 2 3 cli_download_skip[of env ce w w''] show ?thesis by blast
qed

theorem skip_check_paths_witness:
  "isDownloaded
       (empty_world\<lparr>files := [([100, 47, 31532, 49, 35805, 46, 112, 100, 102], File Truncated)]\<rparr>)
       (demo_episode METHOD_PDF)
   \<and> download demo_env (demo_episode METHOD_PDF) [116]
       (empty_world\<lparr>files := [([100, 47, 31532, 49, 35805, 46, 112, 100, 102], File Truncated)]\<rparr>)
     = Some (Inr (),
         \<lparr>files = [([100, 47, 31532, 49, 35805, 46, 112, 100, 102],
                     File (PdfDoc
                       [Image ''RGB'' [120, 47, 97, 63, 116, 111, 107, 101, 110, 61, 116],
                        Image ''RGB'' [120, 47, 98, 63, 116, 111, 107, 101, 110, 61, 116]]
                       [[12298, 66, 12299, 32, 45, 32, 31532, 49, 35805], [67],
                        [65, 32, 49, 32, 67]]))],
          clock = 40, tick = 11, imgs_path = [],
          trace = [RateProgress [116] 50 (Some [100, 47, 31532, 49, 35805, 46, 112, 100, 102]),
                   RateProgress [116] 100 (Some [100, 47, 31532, 49, 35805, 46, 112, 100, 102]),
                   Assemble [80, 68, 70]]\<rparr>)
   \<and> tick (empty_world\<lparr>files := [([100, 47, 31532, 49, 35805, 46, 112, 100, 102],
          File Truncated)]\<rparr>) < 11
   \<and> cli_download demo_env
       (cli_Episode_init
          \<lparr>raw_id = 7, is_locked = False, raw_ord = 12, short_title = [49], long_title = []\<rparr>
          [100])
       (empty_world\<lparr>files := [([100, 47, 49, 32, 46, 112, 100, 102], File Truncated)]\<rparr>)
     = Some (Inr False,
         empty_world\<lparr>files := [([100, 47, 49, 32, 46, 112, 100, 102], File Truncated)]\<rparr>)"
proof -
  let ?W = "empty_world\<lparr>files := [([100, 47, 31532, 49, 35805, 46, 112, 100, 102],
      File Truncated)]\<rparr>"
  let ?ep = "\<lparr>raw_id = 7, is_locked = False, raw_ord = 12, short_title = [49], long_title = []\<rparr>"
  let ?info = "\<lparr>info_title = [66], author_name = [67], info_save_path = [100]\<rparr>"
  let ?W2 = "empty_world\<lparr>files := [([100, 47, 49, 32, 46, 112, 100, 102], File Truncated)]\<rparr>"
  let ?ce = "cli_Episode_init ?ep [100]"
  have p: "path_exists ?W (epi_path_pdf (demo_episode METHOD_PDF))"
    by (simp add: demo_episode_eq path_exists_def empty_world_def)
  have q: "path_exists ?W2 (cli_pdf_path ?ce)"
    by (simp add: cli_pdf_path_def cli_Episode_init_def sub_forbidden_def forbidden_def
        path_exists_def empty_world_def)
  have a: "isDownloaded ?W (demo_episode METHOD_PDF)"
    using p skip_check_paths[of ascii_digit ?ep ?info METHOD_PDF ?W]
    unfolding demo_episode_def by blast
  have b: "cli_download demo_env ?ce ?W2 = Some (Inr False, ?W2)"
    using q skip_check_paths[of ascii_digit ?ep ?info METHOD_PDF ?W2 demo_env _ _ _ _ ?ce ?W2]
    by blast
  have c: "tick ?W < 11"
    using skip_check_paths[of ascii_digit ?ep ?info METHOD_PDF ?W demo_env
        "demo_episode METHOD_PDF" "[116]" "Inr ()"] demo_download_pdf_present
    by fastforce
  from a b c demo_download_pdf_present show ?thesis by blast
qed

section \<open>The temporary files of the pages\<close>

lemma str_nat_eq: "str_nat n = (if n < 10 then [48 + n] else str_nat (n div 10) @ [48 + n mod 10])"
  by (rule str_nat.simps)

lemma str_nat_not_Nil: "str_nat n \<noteq> []"
  by (subst str_nat_eq) simp

lemma butlast_str_nat: "butlast (str_nat n) = (if n < 10 then [] else str_nat (n div 10))"
  by (subst str_nat_eq) (simp add: butlast_append)

lemma last_str_nat: "last (str_nat n) = 48 + n mod 10"
  by (subst str_nat_eq) simp

lemma str_nat_inj: "str_nat m = str_nat n \<Longrightarrow> m = n"
proof (induction m arbitrary: n rule: less_induct)
  case (less m)
  have l: "m mod 10 = n mod 10"
    using last_str_nat[of m] last_str_nat[of n] less.prems by simp
  have b: "(if m < 10 then [] else str_nat (m div 10)) = (if n < 10 then [] else str_nat (n div 10))"
    using butlast_str_nat[of m] butlast_str_nat[of n] less.prems by simp
  show ?case
  proof (cases "m < 10")
    case True
    with b have "n < 10" using str_nat_not_Nil[of "n div 10"] by (auto split: if_splits)
    with True l show ?thesis by simp
  next
    case False
    with b have n: "\<not> n < 10" using str_nat_not_Nil[of "m div 10"] by (auto split: if_splits)
    with False b have "str_nat (m div 10) = str_nat (n div 10)" by simp
    moreover have "m div 10 < m" using False by simp
    ultimately have "m div 10 = n div 10" by (rule less.IH[rotated])
    with l show ?thesis by (metis div_mult_mod_eq)
  qed
qed

lemma hd_str_nat: "hd (str_nat n) \<noteq> 47"
proof (induction n rule: less_induct)
  case (less n)
  show ?case
  proof (cases "n < 10")
    case True
    then show ?thesis by (subst str_nat_eq) simp
  next
    case False
    then have "n div 10 < n" by simp
    from less.IH[OF this] False str_nat_not_Nil[of "n div 10"] show ?thesis
      by (subst str_nat_eq) simp
  qed
qed

lemma hd_str_int: "hd (str_int i @ xs) \<noteq> 47"
  using hd_str_nat[of "nat i"] hd_str_nat[of "nat (- i)"] str_nat_not_Nil[of "nat i"]
  by (simp add: str_int_def del: str_nat.simps)

lemma temp_path_eq:
  "temp_path e i =
     (if save_path e = [] \<or> last (save_path e) = 47 then save_path e else save_path e @ [47])
       @ str_int (ep_ord e) @ [95] @ str_nat i @ [46, 106, 112, 103]"
proof -
  have "str_int (ep_ord e) @ [95] @ str_nat i @ [46, 106, 112, 103] \<noteq> []"
    by (simp del: str_nat.simps)
  moreover have "hd (str_int (ep_ord e) @ [95] @ str_nat i @ [46, 106, 112, 103]) \<noteq> 47"
    by (rule hd_str_int)
  ultimately show ?thesis by (simp add: temp_path_def path_join_def del: str_nat.simps)
qed

lemma temp_path_inj: "temp_path e i = temp_path e j \<Longrightarrow> i = j"
  unfolding temp_path_eq by (auto simp del: str_nat.simps dest: str_nat_inj)

lemma files_fetch_img [simp]: "files (snd (fetch_img env u w)) = files w"
  by (simp add: fetch_img_def send_def split: prod.splits option.splits)

lemma imgs_path_fetch_img [simp]: "imgs_path (snd (fetch_img env u w)) = imgs_path w"
  by (simp add: fetch_img_def send_def split: prod.splits option.splits)

lemma imgs_path_write_file [simp]: "imgs_path (snd (write_file env p c w)) = imgs_path w"
  by (simp add: write_file_def Let_def split: option.splits node.splits fault.splits)

lemma files_write_file_other:
  "q \<noteq> p \<Longrightarrow> map_of (files (snd (write_file env p c w))) q = map_of (files w) q"
  by (simp add: write_file_def Let_def split: option.splits node.splits fault.splits)

lemma downloadImg_frame:
  assumes "downloadImg env e i u w = Some (r, w')"
  shows "imgs_path w' = imgs_path w
     \<and> (\<forall>q. q \<noteq> temp_path e i \<longrightarrow> map_of (files w') q = map_of (files w) q)"
proof -
  let ?kw1 = "site_kwargs env SitePageGet" and ?kw2 = "site_kwargs env SiteTempWrite"
  let ?I = "\<lambda>v. imgs_path v = imgs_path w
     \<and> (\<forall>q. q \<noteq> temp_path e i \<longrightarrow> map_of (files v) q = map_of (files w) q)"
  obtain y where 1: "Retrying_call ?kw1 (fetch_img env u) w = Some y"
    using assms
    by (cases "Retrying_call ?kw1 (fetch_img env u) w") (simp_all add: downloadImg_def)
  obtain a v where y: "y = (a, v)" by (cases y)
  have c1: "Retrying_call ?kw1 (fetch_img env u) w = Some (a, v)" using 1 y by simp
  have "?I v \<and> (\<exists>w0. ?I w0 \<and> fetch_img env u w0 = (a, v))"
  proof (rule Retrying_call_inv[where I = ?I, OF c1])
    show "\<And>w0 r w1. ?I w0 \<Longrightarrow> fetch_img env u w0 = (r, w1) \<Longrightarrow> ?I w1"
      using files_fetch_img imgs_path_fetch_img by (metis snd_conv)
    show "\<And>w0 d. ?I w0 \<Longrightarrow> ?I (w0\<lparr>clock := d\<rparr>)" by simp
    show "?I w" by simp
  qed
  then have tv: "?I v" by blast
  show ?thesis
  proof (cases a)
    case (Inl ex)
    have "(if is_RequestException ex
           then Some (Inr None, emit (MessageBox DownloadFailed) v)
           else Some (Inl ex, v)) = Some (r, w')"
      using assms by (simp add: downloadImg_def 1 y Inl)
    then have "w' = emit (MessageBox DownloadFailed) v \<or> w' = v"
      by (cases "is_RequestException ex") simp_all
    with tv show ?thesis by (auto simp: emit_def)
  next
    case (Inr img)
    let ?wr = "write_file env (temp_path e i) (Raw img)"
    have d: "(case Retrying_call ?kw2 ?wr v of
               None \<Rightarrow> None
             | Some (Inl ex, w2) \<Rightarrow>
                 if ex = OSError
                 then Some (Inr None, emit (MessageBox SaveImgFailed) w2)
                 else Some (Inl ex, w2)
             | Some (Inr u, w2) \<Rightarrow> Some (Inr (Some (temp_path e i)), w2))
           = Some (r, w')"
      using assms by (simp add: downloadImg_def 1 y Inr)
    then obtain y2 where 2: "Retrying_call ?kw2 ?wr v = Some y2"
      by (cases "Retrying_call ?kw2 ?wr v") simp_all
    obtain b v2 where y2: "y2 = (b, v2)" by (cases y2)
    have c2: "Retrying_call ?kw2 ?wr v = Some (b, v2)" using 2 y2 by simp
    have "?I v2 \<and> (\<exists>w0. ?I w0 \<and> ?wr w0 = (b, v2))"
    proof (rule Retrying_call_inv[where I = ?I, OF c2])
      show "\<And>w0 r w1. ?I w0 \<Longrightarrow> ?wr w0 = (r, w1) \<Longrightarrow> ?I w1"
        using files_write_file_other imgs_path_write_file by (metis snd_conv)
      show "\<And>w0 d. ?I w0 \<Longrightarrow> ?I (w0\<lparr>clock := d\<rparr>)" by simp
      show "?I v" by (rule tv)
    qed
    then have tv2: "?I v2" by blast
    have "w' = emit (MessageBox SaveImgFailed) v2 \<or> w' = v2"
      using d unfolding 2 y2 by (cases b) (auto split: if_splits)
    with tv2 show ?thesis by (auto simp: emit_def)
  qed
qed

section \<open>What is given to a save method\<close>

lemma page_failures_emit_other [simp]:
  "page_failures (emit (RateProgress t r p) w) = page_failures w"
  "page_failures (emit (Assemble m) w) = page_failures w"
  "page_failures (emit (MessageBox ImageListFailed) w) = page_failures w"
  "page_failures (emit (MessageBox TokenFailed) w) = page_failures w"
  "page_failures (emit (MessageBox PdfFailed) w) = page_failures w"
  "page_failures (emit (MessageBox FolderFailed) w) = page_failures w"
  "page_failures (emit (MessageBox SevenZFailed) w) = page_failures w"
  "page_failures (emit (MessageBox ClearFailed) w) = page_failures w"
  by (simp_all add: page_failures_def emit_def)

lemma page_failures_trace: "trace w' = trace w \<Longrightarrow> page_failures w' = page_failures w"
  by (simp add: page_failures_def)

lemma page_failures_imgs_path [simp]: "page_failures (w\<lparr>imgs_path := x\<rparr>) = page_failures w"
  by (simp add: page_failures_def)

lemma page_failures_init_imgsList:
  assumes "init_imgsList env e w = Some (r, e1, w1)"
  shows "page_failures w1 = page_failures w"
proof -
  let ?kw1 = "site_kwargs env SiteImageIndex" and ?kw2 = "site_kwargs env SiteImageToken"
  obtain y where 1: "Retrying_call ?kw1 (fetch_image_index env e) w = Some y"
    using assms
    by (cases "Retrying_call ?kw1 (fetch_image_index env e) w") (simp_all add: init_imgsList_def)
  obtain a v where y: "y = (a, v)" by (cases y)
  have "trace v = trace w"
    using Retrying_call_trace[of ?kw1 "fetch_image_index env e" w a v] 1 y by simp
  then have tv: "page_failures v = page_failures w" by (rule page_failures_trace)
  show ?thesis
  proof (cases a)
    case (Inl ex)
    have "(if is_RequestException ex
           then Some (Inr False, e, emit (MessageBox ImageListFailed) v)
           else Some (Inl ex, e, v)) = Some (r, e1, w1)"
      using assms by (simp add: init_imgsList_def 1 y Inl)
    then have "w1 = emit (MessageBox ImageListFailed) v \<or> w1 = v"
      by (cases "is_RequestException ex") simp_all
    with tv show ?thesis by auto
  next
    case (Inr imgs)
    show ?thesis
    proof (cases "those imgs")
      case None
      then have "w1 = v" using assms by (simp add: init_imgsList_def 1 y Inr)
      with tv show ?thesis by simp
    next
      case (Some us)
      have d: "(case Retrying_call ?kw2 (fetch_image_token env us) v of
                 None \<Rightarrow> None
               | Some (Inl ex, w2) \<Rightarrow>
                   if is_RequestException ex
                   then Some (Inr False, e, emit (MessageBox TokenFailed) w2)
                   else Some (Inl ex, e, w2)
               | Some (Inr toks, w2) \<Rightarrow> Some (Inr True, e\<lparr>imgs_token := Some toks\<rparr>, w2))
             = Some (r, e1, w1)"
        using assms by (simp add: init_imgsList_def 1 y Inr Some)
      then obtain y2 where 2: "Retrying_call ?kw2 (fetch_image_token env us) v = Some y2"
        by (cases "Retrying_call ?kw2 (fetch_image_token env us) v") simp_all
      obtain b v2 where y2: "y2 = (b, v2)" by (cases y2)
      have "trace v2 = trace v"
        using Retrying_call_trace[of ?kw2 "fetch_image_token env us" v b v2] 2 y2 by simp
      then have tv2: "page_failures v2 = page_failures v" by (rule page_failures_trace)
      have "w1 = emit (MessageBox TokenFailed) v2 \<or> w1 = v2"
        using d unfolding 2 y2 by (cases b) (auto split: if_splits)
      with tv tv2 show ?thesis by auto
    qed
  qed
qed

lemma downloadImg_quiet:
  assumes "downloadImg env e i u w = Some (r, w1)" and "r \<noteq> Inr None"
  shows "trace w1 = trace w"
proof -
  let ?kw1 = "site_kwargs env SitePageGet" and ?kw2 = "site_kwargs env SiteTempWrite"
  obtain y where 1: "Retrying_call ?kw1 (fetch_img env u) w = Some y"
    using assms
    by (cases "Retrying_call ?kw1 (fetch_img env u) w") (simp_all add: downloadImg_def)
  obtain a v where y: "y = (a, v)" by (cases y)
  have tv: "trace v = trace w"
    using Retrying_call_trace[of ?kw1 "fetch_img env u" w a v] 1 y by simp
  show ?thesis
  proof (cases a)
    case (Inl ex)
    have "(if is_RequestException ex
           then Some (Inr None, emit (MessageBox DownloadFailed) v)
           else Some (Inl ex, v)) = Some (r, w1)"
      using assms by (simp add: downloadImg_def 1 y Inl)
    then have "w1 = v" using assms(2)
      by (cases "is_RequestException ex") auto
    with tv show ?thesis by simp
  next
    case (Inr img)
    let ?wr = "write_file env (temp_path e i) (Raw img)"
    have d: "(case Retrying_call ?kw2 ?wr v of
               None \<Rightarrow> None
             | Some (Inl ex, w2) \<Rightarrow>
                 if ex = OSError
                 then Some (Inr None, emit (MessageBox SaveImgFailed) w2)
                 else Some (Inl ex, w2)
             | Some (Inr u, w2) \<Rightarrow> Some (Inr (Some (temp_path e i)), w2))
           = Some (r, w1)"
      using assms by (simp add: downloadImg_def 1 y Inr)
    then obtain y2 where 2: "Retrying_call ?kw2 ?wr v = Some y2"
      by (cases "Retrying_call ?kw2 ?wr v") simp_all
    obtain b v2 where y2: "y2 = (b, v2)" by (cases y2)
    have tv2: "trace v2 = trace v"
      using Retrying_call_trace[of ?kw2 ?wr v b v2] 2 y2 by simp
    have "w1 = v2"
      using d assms(2) unfolding 2 y2 by (cases b) (auto split: if_splits)
    with tv tv2 show ?thesis by simp
  qed
qed

lemma download_pages_outcome:
  "download_pages env e tid n toks i w = Some (r, w') \<Longrightarrow>
     (r = Inr False \<and> RateProgress tid (- 1) None \<in> set (trace w'))
     \<or> (r \<noteq> Inr False \<and> page_failures w' = page_failures w)"
proof (induction toks arbitrary: i w)
  case Nil
  then show ?case by auto
next
  case (Cons img rest)
  let ?u = "fst img @ [63, 116, 111, 107, 101, 110, 61] @ snd img"
  obtain a v where d: "downloadImg env e i ?u w = Some (a, v)"
    using Cons.prems by (auto split: option.splits)
  show ?case
  proof (cases a)
    case (Inl ex)
    then have "trace v = trace w" using downloadImg_quiet[OF d] by simp
    then have "page_failures v = page_failures w" by (rule page_failures_trace)
    with Cons.prems d Inl show ?thesis by auto
  next
    case (Inr po)
    show ?thesis
    proof (cases po)
      case None
      from download_pages_failed_page[of env e i img w v tid n rest r w'] d Inr None Cons.prems
      show ?thesis by simp
    next
      case (Some p)
      then have "trace v = trace w" using downloadImg_quiet[OF d] Inr by simp
      then have pv: "page_failures v = page_failures w" by (rule page_failures_trace)
      show ?thesis
      proof (cases "epi_path e")
        case None
        with Cons.prems d Inr Some pv show ?thesis by (auto simp: Let_def)
      next
        case (Some q)
        with Cons.prems d Inr \<open>po = Some p\<close>
        have "download_pages env e tid n rest (Suc i)
            (emit (RateProgress tid (rate_of env i n) (Some q))
               (v\<lparr>imgs_path := imgs_path v @ [p]\<rparr>)) = Some (r, w')"
          by (simp add: Let_def)
        from Cons.IH[OF this] pv show ?thesis by simp
      qed
    qed
  qed
qed

lemma download_pages_True:
  "download_pages env e tid n toks i w = Some (Inr True, w') \<Longrightarrow>
     imgs_path w' = imgs_path w @ map (temp_path e) [i..<i + length toks]
     \<and> (\<forall>j<length toks. \<exists>k d res.
           net_reply env k (GetImage (fst (toks ! j) @ [63, 116, 111, 107, 101, 110, 61]
                                       @ snd (toks ! j))) = (Some res, d)
           \<and> status_code res = 200 \<and> integrity_holds env res
           \<and> map_of (files w') (temp_path e (i + j)) = Some (File (Raw (res_content res))))
     \<and> (\<forall>q. (\<forall>j<length toks. q \<noteq> temp_path e (i + j)) \<longrightarrow>
           map_of (files w') q = map_of (files w) q)"
proof (induction toks arbitrary: i w)
  case Nil
  then show ?case by simp
next
  case (Cons img rest)
  let ?u = "fst img @ [63, 116, 111, 107, 101, 110, 61] @ snd img"
  obtain a v where d: "downloadImg env e i ?u w = Some (a, v)"
    using Cons.prems by (auto split: option.splits)
  have "a \<noteq> Inr None"
  proof
    assume "a = Inr None"
    with d have "downloadImg env e i ?u w = Some (Inr None, v)" by simp
    from download_pages_failed_page[OF this Cons.prems] show False by simp
  qed
  moreover have "a \<noteq> Inl ex" for ex
    using Cons.prems d by auto
  ultimately obtain p where a: "a = Inr (Some p)"
    by (cases a) auto
  have d': "downloadImg env e i ?u w = Some (Inr (Some p), v)" using d a by simp
  obtain q where q: "epi_path e = Some q"
    using Cons.prems d' by (cases "epi_path e") (auto simp: Let_def)
  let ?w2 = "emit (RateProgress tid (rate_of env i n) (Some q)) (v\<lparr>imgs_path := imgs_path v @ [p]\<rparr>)"
  have R: "download_pages env e tid n rest (Suc i) ?w2 = Some (Inr True, w')"
    using Cons.prems d' q by (simp add: Let_def)
  note IH = Cons.IH[OF R]
  from downloadImg_path[OF d'] obtain b res k d0 where
    p: "p = temp_path e i" and f: "map_of (files v) p = Some (File (Raw b))"
    and n: "net_reply env k (GetImage ?u) = (Some res, d0)" "status_code res = 200"
      "etag res = Some (md5_hexdigest env b)" "res_content res = b"
    by blast
  from downloadImg_frame[OF d'] have
    fr: "imgs_path v = imgs_path w"
      "\<And>x. x \<noteq> temp_path e i \<Longrightarrow> map_of (files v) x = map_of (files w) x"
    by blast+
  have fw2: "files ?w2 = files v" "imgs_path ?w2 = imgs_path w @ [temp_path e i]"
    using fr(1) p by (simp_all add: emit_def)
  have len: "i + length (img # rest) = Suc i + length rest" by simp
  have up: "[i..<i + length (img # rest)] = i # [Suc i..<Suc i + length rest]"
    unfolding len by (rule upt_conv_Cons) simp
  have 1: "imgs_path w' = imgs_path w @ map (temp_path e) [i..<i + length (img # rest)]"
    using IH fw2 unfolding up by simp
  have keep: "map_of (files w') (temp_path e i) = map_of (files v) (temp_path e i)"
  proof -
    have "\<forall>j<length rest. temp_path e i \<noteq> temp_path e (Suc i + j)"
      using temp_path_inj[of e i] by fastforce
    with IH fw2 show ?thesis by simp
  qed
  have 2: "\<exists>k d res.
           net_reply env k (GetImage (fst ((img # rest) ! j) @ [63, 116, 111, 107, 101, 110, 61]
                                       @ snd ((img # rest) ! j))) = (Some res, d)
           \<and> status_code res = 200 \<and> integrity_holds env res
           \<and> map_of (files w') (temp_path e (i + j)) = Some (File (Raw (res_content res)))"
    if j: "j < length (img # rest)" for j
  proof (cases j)
    case 0
    have "integrity_holds env res" using n by (simp add: integrity_holds_def)
    with 0 n f p keep show ?thesis by auto
  next
    case (Suc j')
    then have "j' < length rest" using j by simp
    with IH Suc show ?thesis by simp
  qed
  have 3: "map_of (files w') x = map_of (files w) x"
    if x: "\<forall>j<length (img # rest). x \<noteq> temp_path e (i + j)" for x
  proof -
    have x0: "x \<noteq> temp_path e i" using x by force
    have "\<forall>j<length rest. x \<noteq> temp_path e (Suc i + j)"
    proof (intro allI impI)
      fix j assume "j < length rest"
      then have "Suc j < length (img # rest)" by simp
      with x have "x \<noteq> temp_path e (i + Suc j)" by blast
      then show "x \<noteq> temp_path e (Suc i + j)" by simp
    qed
    with IH fw2 have "map_of (files w') x = map_of (files v) x" by simp
    with fr(2)[OF x0] show ?thesis by simp
  qed
  from 1 2 3 show ?case by blast
qed

lemma open_images_Inr:
  "open_images env w ps = Inr imgs \<Longrightarrow>
     length imgs = length ps
     \<and> (\<forall>j<length ps. \<exists>b. map_of (files w) (ps ! j) = Some (File (Raw b))
            \<and> pixels (imgs ! j) = b)"
proof (induction ps arbitrary: imgs)
  case Nil
  then show ?case by simp
next
  case (Cons p ps)
  obtain img where i: "Image_open env w p = Inr img"
    using Cons.prems by (cases "Image_open env w p") simp_all
  obtain rest where r: "open_images env w ps = Inr rest"
    using Cons.prems i by (cases "open_images env w ps") simp_all
  have imgs: "imgs = img # rest" using Cons.prems i r by simp
  have px: "\<exists>b. map_of (files w) p = Some (File (Raw b)) \<and> pixels img = b"
    using i by (auto simp: Image_open_def split: option.splits node.splits content.splits)
  note IH = Cons.IH[OF r]
  have "\<exists>b. map_of (files w) ((p # ps) ! j) = Some (File (Raw b)) \<and> pixels (imgs ! j) = b"
    if "j < length (p # ps)" for j
    using that px IH imgs by (cases j) simp_all
  with IH imgs show ?case by simp
qed

lemma pixels_to_rgb [simp]: "pixels (to_rgb img) = pixels img"
  by (simp add: to_rgb_def)

lemma trace_makedirs [simp]: "trace (snd (makedirs env p w)) = trace w"
  by (simp add: makedirs_def Let_def split: option.splits node.splits fault.splits)

lemma trace_rmtree [simp]: "trace (snd (rmtree env p w)) = trace w"
  by (simp add: rmtree_def Let_def split: option.splits node.splits fault.splits)

lemma trace_write_in_dir [simp]: "trace (snd (write_in_dir env d n c w)) = trace w"
  by (simp add: write_in_dir_def Let_def split: option.splits node.splits fault.splits)

lemma trace_read_pdf [simp]: "trace (snd (read_pdf env p w)) = trace w"
  by (simp add: read_pdf_def Let_def split: option.splits node.splits fault.splits content.splits)

lemma trace_pdf_attempt: "trace (snd (pdf_attempt env e imgs w)) = trace w"
proof (cases imgs)
  case Nil
  then show ?thesis by (simp add: pdf_attempt_def)
next
  case (Cons img rest)
  obtain a w1 where 1: "write_file env (epi_path_pdf e) (PdfPages (img # rest)) w = (a, w1)"
    by (cases "write_file env (epi_path_pdf e) (PdfPages (img # rest)) w")
  have t1: "trace w1 = trace w"
    using trace_write_file[of env "epi_path_pdf e" "PdfPages (img # rest)" w] 1 by simp
  obtain b w2 where 2: "read_pdf env (epi_path_pdf e) w1 = (b, w2)"
    by (cases "read_pdf env (epi_path_pdf e) w1")
  have t2: "trace w2 = trace w1" using trace_read_pdf[of env "epi_path_pdf e" w1] 2 by simp
  show ?thesis
  proof (cases a)
    case (Inl ex)
    with Cons 1 t1 show ?thesis by (simp add: pdf_attempt_def)
  next
    case (Inr u)
    show ?thesis
    proof (cases b)
      case (Inl ex)
      with Cons 1 2 t1 t2 Inr show ?thesis by (simp add: pdf_attempt_def)
    next
      case (Inr ps)
      with Cons 1 2 t1 t2 \<open>a = Inr u\<close> show ?thesis
        by (simp add: pdf_attempt_def)
    qed
  qed
qed

lemma trace_save_images: "trace (snd (save_images env e imgs i w)) = trace w"
proof (induction imgs arbitrary: i w)
  case Nil
  then show ?case by simp
next
  case (Cons img rest)
  obtain a w1 where 1: "write_in_dir env (epi_path_folder e) (page_name i)
             (Jpeg img (exif_tags env e)) w = (a, w1)"
    by (cases "write_in_dir env (epi_path_folder e) (page_name i) (Jpeg img (exif_tags env e)) w")
  have t1: "trace w1 = trace w"
    using trace_write_in_dir[of env "epi_path_folder e" "page_name i" "Jpeg img (exif_tags env e)" w] 1
    by simp
  show ?case
  proof (cases a)
    case (Inl ex)
    with 1 t1 show ?thesis by simp
  next
    case (Inr u)
    have "trace (snd (save_images env e rest (Suc i) w1)) = trace w1" by (rule Cons.IH)
    with 1 t1 Inr show ?thesis by simp
  qed
qed

lemma trace_sevenz_attempt: "trace (snd (sevenz_attempt env e w)) = trace w"
proof -
  define entries where "entries = (case map_of (files w) (epi_path_folder e) of
                       Some (Dir es) \<Rightarrow> es | _ \<Rightarrow> [])"
  obtain a w1 where 1: "write_file env (epi_path_7z e) (SevenZip entries) w = (a, w1)"
    by (cases "write_file env (epi_path_7z e) (SevenZip entries) w")
  have t1: "trace w1 = trace w"
    using trace_write_file[of env "epi_path_7z e" "SevenZip entries" w] 1 by simp
  have e: "sevenz_attempt env e w =
     (case write_file env (epi_path_7z e) (SevenZip entries) w of
           (Inl ex, w1) \<Rightarrow> (Inl ex, w1)
         | (Inr u, w1) \<Rightarrow> rmtree env (epi_path_folder e) w1)"
    by (simp add: sevenz_attempt_def entries_def Let_def)
  show ?thesis
    unfolding e 1 using t1 by (cases a) simp_all
qed

lemma page_failures_saveToPDF:
  assumes "saveToPDF env e imgs w = Some (r, w1)"
  shows "page_failures w1 = page_failures w"
proof -
  obtain a v where 1: "Retrying_call (site_kwargs env SitePdf) (pdf_attempt env e imgs) w = Some (a, v)"
    using assms by (auto simp: saveToPDF_def split: option.splits)
  have "trace v = trace w"
    using Retrying_call_trace[OF 1] trace_pdf_attempt by simp
  then have "page_failures v = page_failures w" by (rule page_failures_trace)
  moreover have "w1 = emit (MessageBox PdfFailed) v \<or> w1 = v"
    using assms 1 by (auto simp: saveToPDF_def split: if_splits sum.splits)
  ultimately show ?thesis by auto
qed

lemma page_failures_saveToFolder:
  assumes "saveToFolder env e imgs w = Some (r, w1)"
  shows "page_failures w1 = page_failures w"
proof -
  define m where "m = (if \<not> path_exists w (epi_path_folder e) then makedirs env (epi_path_folder e) w
            else (Inr (), w))"
  obtain a v where m: "m = (a, v)" by (cases m)
  have "trace v = trace w"
  proof (cases "path_exists w (epi_path_folder e)")
    case True
    with m show ?thesis unfolding m_def by simp
  next
    case False
    then have "makedirs env (epi_path_folder e) w = (a, v)" using m unfolding m_def by simp
    then have "v = snd (makedirs env (epi_path_folder e) w)" by simp
    then show ?thesis by simp
  qed
  then have tv: "page_failures v = page_failures w" by (rule page_failures_trace)
  have S: "(case m of
        (Inl ex, w1) \<Rightarrow>
          if ex = OSError then Some (Inr (), emit (MessageBox FolderFailed) w1)
          else Some (Inl ex, w1)
      | (Inr u, w1) \<Rightarrow>
          (case Retrying_call (site_kwargs env SiteFolder)
                  (save_images env e imgs 1) w1 of
             None \<Rightarrow> None
           | Some (Inl ex, w2) \<Rightarrow>
               if ex = OSError then Some (Inr (), emit (MessageBox FolderFailed) w2)
               else Some (Inl ex, w2)
           | Some (Inr u, w2) \<Rightarrow> Some (Inr (), w2))) = Some (r, w1)"
    using assms unfolding saveToFolder_def m_def .
  show ?thesis
  proof (cases a)
    case (Inl ex)
    with S m have "w1 = emit (MessageBox FolderFailed) v \<or> w1 = v" by (auto split: if_splits)
    with tv show ?thesis by auto
  next
    case (Inr u)
    with S m obtain b v2 where
      2: "Retrying_call (site_kwargs env SiteFolder) (save_images env e imgs 1) v = Some (b, v2)"
      by (auto split: option.splits)
    have "trace v2 = trace v"
      using Retrying_call_trace[OF 2] trace_save_images by simp
    then have "page_failures v2 = page_failures v" by (rule page_failures_trace)
    moreover have "w1 = emit (MessageBox FolderFailed) v2 \<or> w1 = v2"
      using S m Inr 2 by (auto split: if_splits sum.splits)
    ultimately show ?thesis using tv by auto
  qed
qed

lemma page_failures_saveTo7z:
  assumes "saveTo7z env e imgs w = Some (r, w1)"
  shows "page_failures w1 = page_failures w"
proof -
  obtain a v where 1: "saveToFolder env e imgs w = Some (a, v)"
    using assms by (auto simp: saveTo7z_def split: option.splits)
  have tv: "page_failures v = page_failures w" using page_failures_saveToFolder[OF 1] .
  show ?thesis
  proof (cases a)
    case (Inl ex)
    with assms 1 tv show ?thesis by (simp add: saveTo7z_def)
  next
    case (Inr u)
    with assms 1 obtain b v2 where
      2: "Retrying_call (site_kwargs env SiteSevenZ) (sevenz_attempt env e) v = Some (b, v2)"
      by (auto simp: saveTo7z_def split: option.splits)
    have "trace v2 = trace v"
      using Retrying_call_trace[OF 2] trace_sevenz_attempt by simp
    then have "page_failures v2 = page_failures v" by (rule page_failures_trace)
    moreover have "w1 = emit (MessageBox SevenZFailed) v2 \<or> w1 = v2"
      using assms 1 Inr 2 by (auto simp: saveTo7z_def split: if_splits sum.splits)
    ultimately show ?thesis using tv by auto
  qed
qed

lemma page_failures_dispatch_save:
  assumes "dispatch_save env e imgs w = Some (r, w1)"
  shows "page_failures w1 = page_failures w"
proof -
  consider (pdf) m where "saveToPDF env e imgs (emit (Assemble m) w) = Some (r, w1)"
    | (folder) m where "saveToFolder env e imgs (emit (Assemble m) w) = Some (r, w1)"
    | (sevenz) m where "saveTo7z env e imgs (emit (Assemble m) w) = Some (r, w1)"
    | (none) "w1 = w"
    using assms by (auto simp: dispatch_save_def split: if_splits)
  then show ?thesis
  proof cases
    case pdf
    from page_failures_saveToPDF[OF this] show ?thesis by simp
  next
    case folder
    from page_failures_saveToFolder[OF this] show ?thesis by simp
  next
    case sevenz
    from page_failures_saveTo7z[OF this] show ?thesis by simp
  next
    case none
    then show ?thesis by simp
  qed
qed

lemma page_failures_clearAfterSave:
  assumes "clearAfterSave env w = Some (r, w1)"
  shows "page_failures w1 = page_failures w"
  using clearAfterSave_result[OF assms] by (auto simp: page_failures_def)

text \<open>The run of \<open>download\<close> up to the end of the page loop.\<close>

lemma download_cases:
  assumes D: "download env e taskID w = Some (r, w')"
  obtains (init_raised) ex e1 where "init_imgsList env e w = Some (Inl ex, e1, w')" "r = Inl ex"
  | (no_tokens) ok e1 w1 where "init_imgsList env e w = Some (Inr ok, e1, w1)"
      "imgs_token e1 = None" "r = Inl TypeError"
      "w' = (if \<not> ok then emit (RateProgress taskID (- 1) None) w1 else w1)\<lparr>imgs_path := []\<rparr>"
  | (pages) ok e1 w1 toks b w4 where "init_imgsList env e w = Some (Inr ok, e1, w1)"
      "imgs_token e1 = Some toks"
      "download_pages env e1 taskID (length toks) toks (Suc 0)
         ((if \<not> ok then emit (RateProgress taskID (- 1) None) w1 else w1)\<lparr>imgs_path := []\<rparr>)
       = Some (b, w4)"
      "(case b of
          Inl ex \<Rightarrow> Some (Inl ex, w4)
        | Inr False \<Rightarrow> Some (Inr (), w4)
        | Inr True \<Rightarrow>
            (case open_images env w4 (imgs_path w4) of
               Inl ex \<Rightarrow> Some (Inl ex, w4)
             | Inr imgs \<Rightarrow>
                 (case dispatch_save env e1 (map to_rgb imgs) w4 of
                    None \<Rightarrow> None
                  | Some (Inl ex, w5) \<Rightarrow> Some (Inl ex, w5)
                  | Some (Inr u, w5) \<Rightarrow> clearAfterSave env w5))) = Some (r, w')"
proof -
  obtain y where I: "init_imgsList env e w = Some y"
    using D by (cases "init_imgsList env e w") (simp_all add: download_def)
  obtain a e1 w1 where y: "y = (a, e1, w1)" by (cases y)
  show ?thesis
  proof (cases a)
    case (Inl ex)
    then have "w' = w1" "r = Inl ex" using D by (simp_all add: download_def I y)
    with I y Inl init_raised show ?thesis by simp
  next
    case (Inr ok)
    define w3 where "w3 = (if \<not> ok then emit (RateProgress taskID (- 1) None) w1 else w1)
        \<lparr>imgs_path := []\<rparr>"
    show ?thesis
    proof (cases "imgs_token e1")
      case None
      then have "w' = w3" "r = Inl TypeError"
        using D by (simp_all add: download_def I y Inr Let_def w3_def)
      with I y Inr None no_tokens show ?thesis unfolding w3_def by simp
    next
      case (Some toks)
      have D2: "(case download_pages env e1 taskID (length toks) toks (Suc 0) w3 of
                  None \<Rightarrow> None
                | Some (Inl ex, w4) \<Rightarrow> Some (Inl ex, w4)
                | Some (Inr False, w4) \<Rightarrow> Some (Inr (), w4)
                | Some (Inr True, w4) \<Rightarrow>
                    (case open_images env w4 (imgs_path w4) of
                       Inl ex \<Rightarrow> Some (Inl ex, w4)
                     | Inr imgs \<Rightarrow>
                         (case dispatch_save env e1 (map to_rgb imgs) w4 of
                            None \<Rightarrow> None
                          | Some (Inl ex, w5) \<Rightarrow> Some (Inl ex, w5)
                          | Some (Inr u, w5) \<Rightarrow> clearAfterSave env w5))) = Some (r, w')"
        using D by (simp add: download_def I y Inr Let_def w3_def Some)
      then obtain y2 where P: "download_pages env e1 taskID (length toks) toks (Suc 0) w3 = Some y2"
        by (cases "download_pages env e1 taskID (length toks) toks (Suc 0) w3") simp_all
      obtain b w4 where y2: "y2 = (b, w4)" by (cases y2)
      have "(case b of
          Inl ex \<Rightarrow> Some (Inl ex, w4)
        | Inr False \<Rightarrow> Some (Inr (), w4)
        | Inr True \<Rightarrow>
            (case open_images env w4 (imgs_path w4) of
               Inl ex \<Rightarrow> Some (Inl ex, w4)
             | Inr imgs \<Rightarrow>
                 (case dispatch_save env e1 (map to_rgb imgs) w4 of
                    None \<Rightarrow> None
                  | Some (Inl ex, w5) \<Rightarrow> Some (Inl ex, w5)
                  | Some (Inr u, w5) \<Rightarrow> clearAfterSave env w5))) = Some (r, w')"
        using D2 unfolding P y2 by (cases b) (simp_all split: bool.splits)
      with I y Inr Some P y2 pages show ?thesis unfolding w3_def by simp
    qed
  qed
qed

lemma download_enters_save:
  assumes D: "download env e taskID w = Some (r, w')" and A: "assemblies w' \<noteq> assemblies w"
  shows "\<exists>ok e1 w1 toks imgs w4 c w5.
      init_imgsList env e w = Some (Inr ok, e1, w1) \<and> imgs_token e1 = Some toks
      \<and> assemblies w4 = assemblies w \<and> page_failures w4 = page_failures w
      \<and> dispatch_save env e1 (map to_rgb imgs) w4 = Some (c, w5)
      \<and> (case c of Inl ex \<Rightarrow> r = Inl ex \<and> w' = w5
                   | Inr u \<Rightarrow> clearAfterSave env w5 = Some (r, w'))
      \<and> length imgs = length toks
      \<and> (\<forall>j<length toks. \<exists>k d res.
            net_reply env k (GetImage (fst (toks ! j) @ [63, 116, 111, 107, 101, 110, 61]
                                        @ snd (toks ! j))) = (Some res, d)
            \<and> status_code res = 200 \<and> integrity_holds env res
            \<and> pixels (map to_rgb imgs ! j) = res_content res)"
  using D
proof (cases rule: download_cases)
  case (init_raised ex e1)
  from assemblies_init_imgsList[OF init_raised(1)] A show ?thesis by simp
next
  case (no_tokens ok e1 w1)
  have "assemblies w' = assemblies w"
    using assemblies_init_imgsList[OF no_tokens(1)] no_tokens(4) by (cases ok) simp_all
  with A show ?thesis by simp
next
  case (pages ok e1 w1 toks b w4)
  let ?w3 = "(if \<not> ok then emit (RateProgress taskID (- 1) None) w1 else w1)\<lparr>imgs_path := []\<rparr>"
  have a3: "assemblies ?w3 = assemblies w" "page_failures ?w3 = page_failures w"
    using assemblies_init_imgsList[OF pages(1)] page_failures_init_imgsList[OF pages(1)]
    by (cases ok; simp)+
  have a4: "assemblies w4 = assemblies w"
    using assemblies_download_pages[OF pages(3)] a3 by simp
  show ?thesis
  proof (cases b)
    case (Inl ex)
    with pages(4) a4 A show ?thesis by simp
  next
    case (Inr go)
    show ?thesis
    proof (cases go)
      case False
      with pages(4) Inr a4 A show ?thesis by simp
    next
      case True
      have P: "download_pages env e1 taskID (length toks) toks (Suc 0) ?w3 = Some (Inr True, w4)"
        using pages(3) Inr True by simp
      have p4: "page_failures w4 = page_failures w"
        using download_pages_outcome[OF P] a3 by simp
      note T = download_pages_True[OF P]
      have ip: "imgs_path w4 = map (temp_path e1) [Suc 0..<Suc 0 + length toks]"
        using T by simp
      show ?thesis
      proof (cases "open_images env w4 (imgs_path w4)")
        case (Inl ex)
        with pages(4) \<open>b = Inr go\<close> True a4 A show ?thesis by simp
      next
        case (Inr imgs)
        have D3: "(case dispatch_save env e1 (map to_rgb imgs) w4 of
                     None \<Rightarrow> None
                   | Some (Inl ex, w5) \<Rightarrow> Some (Inl ex, w5)
                   | Some (Inr u, w5) \<Rightarrow> clearAfterSave env w5) = Some (r, w')"
          using pages(4) \<open>b = Inr go\<close> True Inr by simp
        then obtain c w5 where S: "dispatch_save env e1 (map to_rgb imgs) w4 = Some (c, w5)"
          by (cases "dispatch_save env e1 (map to_rgb imgs) w4") auto
        have res: "(case c of Inl ex \<Rightarrow> r = Inl ex \<and> w' = w5
                   | Inr u \<Rightarrow> clearAfterSave env w5 = Some (r, w'))"
          using D3 S by (cases c) auto
        note O = open_images_Inr[OF Inr]
        have lp: "length (imgs_path w4) = length toks" unfolding ip by (simp del: upt_Suc)
        have len: "length imgs = length toks" using O lp by simp
        have px: "\<exists>k d res.
            net_reply env k (GetImage (fst (toks ! j) @ [63, 116, 111, 107, 101, 110, 61]
                                        @ snd (toks ! j))) = (Some res, d)
            \<and> status_code res = 200 \<and> integrity_holds env res
            \<and> pixels (map to_rgb imgs ! j) = res_content res"
          if j: "j < length toks" for j
        proof -
          from T j obtain k d res where
            n: "net_reply env k (GetImage (fst (toks ! j) @ [63, 116, 111, 107, 101, 110, 61]
                                        @ snd (toks ! j))) = (Some res, d)"
              "status_code res = 200" "integrity_holds env res"
            and f: "map_of (files w4) (temp_path e1 (Suc 0 + j)) = Some (File (Raw (res_content res)))"
            by blast
          have "imgs_path w4 ! j = temp_path e1 (Suc 0 + j)"
            unfolding ip using j by (simp del: upt_Suc)
          moreover have "j < length (imgs_path w4)" using lp j by simp
          ultimately obtain b0 where
            "map_of (files w4) (temp_path e1 (Suc 0 + j)) = Some (File (Raw b0))"
            "pixels (imgs ! j) = b0"
            using O by metis
          with f have "pixels (imgs ! j) = res_content res" by simp
          moreover have "j < length imgs" using len j by simp
          ultimately have "pixels (map to_rgb imgs ! j) = res_content res" by simp
          with n show ?thesis by blast
        qed
        from pages(1,2) a4 p4 S res len px show ?thesis by blast
      qed
    qed
  qed
qed

lemma download_page_failure:
  assumes D: "download env e taskID w = Some (r, w')"
    and F: "page_failures w' \<noteq> page_failures w"
  shows "r = Inr () \<and> assemblies w' = assemblies w
     \<and> RateProgress taskID (- 1) None \<in> set (trace w')"
  using D
proof (cases rule: download_cases)
  case (init_raised ex e1)
  from page_failures_init_imgsList[OF init_raised(1)] F show ?thesis by simp
next
  case (no_tokens ok e1 w1)
  have "page_failures w' = page_failures w"
    using page_failures_init_imgsList[OF no_tokens(1)] no_tokens(4) by (cases ok) simp_all
  with F show ?thesis by simp
next
  case (pages ok e1 w1 toks b w4)
  let ?w3 = "(if \<not> ok then emit (RateProgress taskID (- 1) None) w1 else w1)\<lparr>imgs_path := []\<rparr>"
  have a3: "assemblies ?w3 = assemblies w" "page_failures ?w3 = page_failures w"
    using assemblies_init_imgsList[OF pages(1)] page_failures_init_imgsList[OF pages(1)]
    by (cases ok; simp)+
  have a4: "assemblies w4 = assemblies w"
    using assemblies_download_pages[OF pages(3)] a3 by simp
  from download_pages_outcome[OF pages(3)]
  consider (failed) "b = Inr False" "RateProgress taskID (- 1) None \<in> set (trace w4)"
    | (quiet) "b \<noteq> Inr False" "page_failures w4 = page_failures ?w3"
    by blast
  then show ?thesis
  proof cases
    case failed
    with pages(4) a4 show ?thesis by simp
  next
    case quiet
    then have p4: "page_failures w4 = page_failures w" using a3 by simp
    show ?thesis
    proof (cases b)
      case (Inl ex)
      with pages(4) p4 F show ?thesis by simp
    next
      case (Inr go)
      with quiet have go: "go" by simp
      show ?thesis
      proof (cases "open_images env w4 (imgs_path w4)")
        case (Inl ex)
        with pages(4) Inr go p4 F show ?thesis by simp
      next
        case (Inr imgs)
        have D3: "(case dispatch_save env e1 (map to_rgb imgs) w4 of
                     None \<Rightarrow> None
                   | Some (Inl ex, w5) \<Rightarrow> Some (Inl ex, w5)
                   | Some (Inr u, w5) \<Rightarrow> clearAfterSave env w5) = Some (r, w')"
          using pages(4) \<open>b = Inr go\<close> go Inr by simp
        then obtain c w5 where S: "dispatch_save env e1 (map to_rgb imgs) w4 = Some (c, w5)"
          by (cases "dispatch_save env e1 (map to_rgb imgs) w4") auto
        have p5: "page_failures w5 = page_failures w"
          using page_failures_dispatch_save[OF S] p4 by simp
        show ?thesis
        proof (cases c)
          case (Inl ex)
          then have "w' = w5" using D3 S by simp
          with p5 F show ?thesis by simp
        next
          case (Inr u)
          then have "clearAfterSave env w5 = Some (r, w')" using D3 S by simp
          from page_failures_clearAfterSave[OF this] p5 F show ?thesis by simp
        qed
      qed
    qed
  qed
qed

section \<open>The page download of main.py\<close>

lemma cli_fetch_loop_round:
  assumes "send env (GetImage (url @ [63, 116, 111, 107, 101, 110, 61] @ token)) w = (Some res, w1)"
  shows "cli_fetch_loop env url token w =
     (if integrity_holds env res then Some (Inr (res_content res), w1)
      else if etag res = None then Some (Inl KeyError, w1)
      else cli_fetch_loop env (url @ [63, 116, 111, 107, 101, 110, 61] @ token) token w1)"
  by (subst cli_fetch_loop.simps)
     (use assms in \<open>simp add: integrity_holds_def split: option.splits\<close>)

lemma cli_fetch_loop_result:
  assumes run: "cli_fetch_loop env url token w = Some y"
  shows "fst y = Inl RequestException \<or> fst y = Inl KeyError
     \<or> (\<exists>k d res u. net_reply env k (GetImage u) = (Some res, d) \<and> integrity_holds env res
           \<and> fst y = Inr (res_content res))"
proof (rule cli_fetch_loop.raw_induct[where P = "\<lambda>env url token w y.
     fst y = Inl RequestException \<or> fst y = Inl KeyError
     \<or> (\<exists>k d res u. net_reply env k (GetImage u) = (Some res, d) \<and> integrity_holds env res
           \<and> fst y = Inr (res_content res))", OF _ run])
  fix loop :: "env \<Rightarrow> ustr \<Rightarrow> ustr \<Rightarrow> world \<Rightarrow> ((exn + bytes) \<times> world) option"
  fix env url token w y
  assume IH: "\<And>env url token w y. loop env url token w = Some y \<Longrightarrow>
     fst y = Inl RequestException \<or> fst y = Inl KeyError
     \<or> (\<exists>k d res u. net_reply env k (GetImage u) = (Some res, d) \<and> integrity_holds env res
           \<and> fst y = Inr (res_content res))"
  assume eq: "(case send env (GetImage (url @ [63, 116, 111, 107, 101, 110, 61] @ token)) w of
        (None, w1) \<Rightarrow> Some (Inl RequestException, w1)
      | (Some res, w1) \<Rightarrow>
          (case etag res of
             None \<Rightarrow> Some (Inl KeyError, w1)
           | Some t \<Rightarrow>
               if t = md5_hexdigest env (res_content res) then Some (Inr (res_content res), w1)
               else loop env (url @ [63, 116, 111, 107, 101, 110, 61] @ token) token w1)) = Some y"
  let ?u = "url @ [63, 116, 111, 107, 101, 110, 61] @ token"
  obtain rep d where n: "net_reply env (tick w) (GetImage ?u) = (rep, d)"
    by (cases "net_reply env (tick w) (GetImage ?u)")
  let ?w1 = "w\<lparr>tick := Suc (tick w), clock := clock w + int d\<rparr>"
  have s: "send env (GetImage ?u) w = (rep, ?w1)" using n by (simp add: send_def)
  show "fst y = Inl RequestException \<or> fst y = Inl KeyError
     \<or> (\<exists>k d res u. net_reply env k (GetImage u) = (Some res, d) \<and> integrity_holds env res
           \<and> fst y = Inr (res_content res))"
  proof (cases rep)
    case None
    with eq s show ?thesis by auto
  next
    case (Some res)
    show ?thesis
    proof (cases "etag res")
      case None
      with eq s Some show ?thesis by auto
    next
      case (Some t)
      show ?thesis
      proof (cases "t = md5_hexdigest env (res_content res)")
        case True
        then have "integrity_holds env res" using Some by (simp add: integrity_holds_def)
        moreover have "y = (Inr (res_content res), ?w1)"
          using eq s \<open>rep = Some res\<close> Some True by simp
        ultimately show ?thesis using n \<open>rep = Some res\<close> by auto
      next
        case False
        then have "loop env ?u token ?w1 = Some y"
          using eq s \<open>rep = Some res\<close> Some by simp
        from IH[OF this] show ?thesis .
      qed
    qed
  qed
qed

lemma cli_downloadImg_path:
  assumes "cli_downloadImg env e i url token w = Some (Inr p, w')"
  shows "p = cli_temp_path e i
     \<and> (\<exists>k d res u. net_reply env k (GetImage u) = (Some res, d) \<and> integrity_holds env res
           \<and> map_of (files w') p = Some (File (Raw (res_content res))))"
proof -
  obtain y where 1: "cli_fetch_loop env url token w = Some y"
    using assms by (cases "cli_fetch_loop env url token w") (simp_all add: cli_downloadImg_def)
  obtain a v where y: "y = (a, v)" by (cases y)
  obtain b where a: "a = Inr b"
    using assms 1 y by (cases a) (simp_all add: cli_downloadImg_def)
  obtain c v2 where wr: "write_file env (cli_temp_path e i) (Raw b) v = (c, v2)"
    by (cases "write_file env (cli_temp_path e i) (Raw b) v")
  have c: "c = Inr () \<and> p = cli_temp_path e i \<and> w' = v2"
    using assms 1 y a wr by (cases c) (simp_all add: cli_downloadImg_def)
  have f: "map_of (files v2) (cli_temp_path e i) = Some (File (Raw b))"
    using write_file_ok[of env "cli_temp_path e i" "Raw b" v "()" v2] wr c by simp
  from cli_fetch_loop_result[OF 1] y a obtain k d res u where
    "net_reply env k (GetImage u) = (Some res, d)" "integrity_holds env res" "b = res_content res"
    by auto
  with c f show ?thesis by blast
qed

lemma attempts_last: "attempts k fn w = (r, w') \<Longrightarrow> \<exists>w0. fn w0 = (r, w')"
proof (induction k arbitrary: w)
  case 0
  then show ?case by auto
next
  case (Suc k)
  obtain a w1 where f: "fn w = (a, w1)" by (cases "fn w")
  show ?case
  proof (cases a)
    case (Inr v)
    with Suc.prems f show ?thesis by auto
  next
    case (Inl ex)
    with Suc.prems f have "attempts k fn w1 = (r, w')" by simp
    then show ?thesis by (rule Suc.IH)
  qed
qed

lemma downloadImg_accepted:
  assumes "Retrying_call (site_kwargs env SitePageGet) (fetch_img env u) w = Some (Inr b, w1)"
  shows "downloadImg env e i u w
     = (case attempts 4 (write_file env (temp_path e i) (Raw b)) w1 of
          (Inl ex, w2) \<Rightarrow> Some (Inr None, emit (MessageBox SaveImgFailed) w2)
        | (Inr x, w2) \<Rightarrow> Some (Inr (Some (temp_path e i)), w2))"
proof -
  obtain a w2 where at: "attempts 4 (write_file env (temp_path e i) (Raw b)) w1 = (a, w2)"
    by (cases "attempts 4 (write_file env (temp_path e i) (Raw b)) w1")
  have r: "Retrying_call (site_kwargs env SiteTempWrite)
             (write_file env (temp_path e i) (Raw b)) w1 = Some (a, w2)"
    using Retrying_call_five[of SiteTempWrite env "write_file env (temp_path e i) (Raw b)" w1] at
    by (simp add: is_network_def)
  show ?thesis
  proof (cases a)
    case (Inl ex)
    from attempts_last[OF at] Inl have "ex = OSError" using write_file_exn by blast
    with assms r at Inl show ?thesis by (simp add: downloadImg_def)
  next
    case (Inr x)
    with assms r at show ?thesis by (simp add: downloadImg_def)
  qed
qed

lemma page_loop:
  "Retrying_loop (site_kwargs env SitePageGet) (fetch_img env u) st n w =
     (case fetch_img env u w of
        (Inr b, w1) \<Rightarrow> Some (Inr b, w1)
      | (Inl ex, w1) \<Rightarrow>
          if MAX_RETRY_LARGE env \<le> clock w1 - st then Some (Inl ex, w1)
          else Retrying_loop (site_kwargs env SitePageGet) (fetch_img env u) st (Suc n)
                 (w1\<lparr>clock := clock w1 + max 0 (min (RETRY_WAIT_EX env * 2 ^ n) MAX_WAIT)\<rparr>))"
  unfolding site_kwargs_timed by (rule timed_loop)

lemma fetch_img_accepts_integrity:
  "fetch_img env u w = (Inr b, w1) \<longleftrightarrow>
     (\<exists>res d. net_reply env (tick w) (GetImage u) = (Some res, d) \<and> status_code res = 200
        \<and> integrity_holds env res \<and> res_content res = b
        \<and> w1 = w\<lparr>tick := Suc (tick w), clock := clock w + int d\<rparr>)"
  unfolding fetch_img_accepts integrity_holds_def by metis

lemma downloadImg_path_integrity:
  assumes "downloadImg env e i u w = Some (Inr (Some p), w')"
  shows "p = temp_path e i \<and>
     (\<exists>res k d. map_of (files w') p = Some (File (Raw (res_content res)))
        \<and> net_reply env k (GetImage u) = (Some res, d) \<and> status_code res = 200
        \<and> integrity_holds env res)"
  using downloadImg_path[OF assms] unfolding integrity_holds_def by metis

lemma page_not_found_init:
  "init_imgsList page_not_found_env (demo_episode m)
       \<lparr>files = fs, clock = 0, tick = 0, imgs_path = [], trace = []\<rparr>
     = Some (Inr True,
         (demo_episode m)\<lparr>imgs_token := Some [([120, 47, 97], [116]), ([120, 47, 98], [116])]\<rparr>,
         \<lparr>files = fs, clock = 20, tick = 2, imgs_path = [], trace = []\<rparr>)"
  by (simp add: init_imgsList_def Retrying_call_def Retrying_loop.simps fetch_image_index_def
      fetch_image_token_def send_def page_not_found_env_def demo_env_def demo_net_def
      plain_response_def site_kwargs_def)

lemma page_not_found_call:
  "Retrying_call (site_kwargs page_not_found_env SitePageGet)
       (fetch_img page_not_found_env [120, 47, 97, 63, 116, 111, 107, 101, 110, 61, 116])
       \<lparr>files = [], clock = 20, tick = 2, imgs_path = [], trace = []\<rparr>
     = Some (Inl HTTPError,
         \<lparr>files = [], clock = 12480, tick = 8, imgs_path = [], trace = []\<rparr>)"
  by (simp add: Retrying_call_def Retrying_loop.simps fetch_img_def send_def
      page_not_found_env_def demo_env_def plain_response_def site_kwargs_def
      should_stop_def wait_ms_def exponential_sleep_def MAX_WAIT_def Let_def)

lemma page_not_found_download:
  "download page_not_found_env (demo_episode METHOD_PDF) [116] empty_world
     = Some (Inr (),
         \<lparr>files = [], clock = 12480, tick = 8, imgs_path = [],
          trace = [MessageBox DownloadFailed, RateProgress [116] (- 1) None]\<rparr>)"
proof -
  have d: "downloadImg page_not_found_env
       ((demo_episode METHOD_PDF)\<lparr>imgs_token :=
          Some [([120, 47, 97], [116]), ([120, 47, 98], [116])]\<rparr>)
       (Suc 0) [120, 47, 97, 63, 116, 111, 107, 101, 110, 61, 116]
       \<lparr>files = [], clock = 20, tick = 2, imgs_path = [], trace = []\<rparr>
     = Some (Inr None,
         \<lparr>files = [], clock = 12480, tick = 8, imgs_path = [],
          trace = [MessageBox DownloadFailed]\<rparr>)"
    by (simp add: downloadImg_def page_not_found_call is_RequestException_def emit_def)
  have c: "clearAfterSave page_not_found_env
       \<lparr>files = [], clock = 12480, tick = 8, imgs_path = [],
          trace = [MessageBox DownloadFailed, RateProgress [116] (- 1) None]\<rparr>
     = Some (Inr (),
         \<lparr>files = [], clock = 12480, tick = 8, imgs_path = [],
          trace = [MessageBox DownloadFailed, RateProgress [116] (- 1) None]\<rparr>)"
    by (simp add: clearAfterSave_def Retrying_call_def Retrying_loop.simps clear_attempt_def)
  show ?thesis
    by (simp add: download_def empty_world_def page_not_found_init Let_def d c emit_def)
qed

lemma not_found_cli_downloadImg:
  "cli_downloadImg not_found_env
       (cli_Episode_init
          \<lparr>raw_id = 7, is_locked = False, raw_ord = 12, short_title = [49], long_title = []\<rparr>
          [100])
       1 [120] [116] empty_world
     = Some (Inr [100, 47, 49, 50, 95, 49, 46, 106, 112, 103],
         \<lparr>files = [([100, 47, 49, 50, 95, 49, 46, 106, 112, 103], File (Raw [110]))],
          clock = 10, tick = 2, imgs_path = [], trace = []\<rparr>)"
  by (simp add: cli_downloadImg_def cli_fetch_loop.simps send_def not_found_env_def demo_env_def
      plain_response_def empty_world_def write_file_def put_def cli_temp_path_def
      cli_Episode_init_def path_join_def str_int_def Let_def)



end
